theory Spec2Isabelle
  imports Complex_Main "HOL-Library.Log_Nat"
begin

section \<open>JavaScript numbers\<close>

text \<open>
  The colour conversions of \<^verbatim>\<open>color-var-picker.js\<close> compute on JavaScript Numbers, that is
  on IEEE 754 binary64 values. A finite Number is modelled by the rational it denotes, and
  every arithmetic operation of the source is the exact operation followed by \<open>fl\<close>, the
  rounding to the nearest binary64 value with ties to the even significand. The exponent of
  the rounding grid is bounded below (gradual underflow); it is not bounded above, so the
  model agrees with the machine as long as no intermediate result reaches \<open>2 ^ 1024\<close>, which
  holds on the ranges of the colour channels. The sign of zero is not modelled.
\<close>

definition rhe :: "rat \<Rightarrow> int" where
  \<comment> \<open>round to the nearest integer, ties to even\<close>
  "rhe y = (let f = \<lfloor>y\<rfloor>; d = y - of_int f in
     if d < 1 / 2 then f else if 1 / 2 < d then f + 1 else if even f then f else f + 1)"

definition ilog2 :: "rat \<Rightarrow> int" where
  \<comment> \<open>the integer \<open>k\<close> with \<open>2 ^ k \<le> x < 2 ^ (k + 1)\<close>, for positive \<open>x\<close>\<close>
  "ilog2 x = (let k = bitlen (fst (quotient_of x)) - bitlen (snd (quotient_of x))
     in if 2 powi k \<le> x then k else k - 1)"

definition ulp_exp :: "rat \<Rightarrow> int" where
  \<comment> \<open>exponent of the unit in the last place of the binary64 grid around \<open>x\<close>\<close>
  "ulp_exp x = max (ilog2 \<bar>x\<bar> - 52) (- 1074)"

definition fl :: "rat \<Rightarrow> rat" where
  "fl x = (if x = 0 then 0
     else of_int (rhe (x / 2 powi ulp_exp x)) * 2 powi ulp_exp x)"

definition jsmod :: "rat \<Rightarrow> rat \<Rightarrow> rat" where
  \<comment> \<open>the remainder operator \<^verbatim>\<open>%\<close>: truncated division, the result is exact\<close>
  "jsmod x y = x - y * of_int (if 0 \<le> x / y then \<lfloor>x / y\<rfloor> else \<lceil>x / y\<rceil>)"

definition Math_floor :: "rat \<Rightarrow> rat" where
  "Math_floor x = of_int \<lfloor>x\<rfloor>"

definition Math_round :: "rat \<Rightarrow> rat" where
  \<comment> \<open>nearest integer, ties towards plus infinity\<close>
  "Math_round x = of_int \<lfloor>x + 1 / 2\<rfloor>"

datatype jsnum = Num rat | NaN | PosInfinity | NegInfinity

definition js_div :: "rat \<Rightarrow> rat \<Rightarrow> jsnum" where
  \<comment> \<open>the operator \<^verbatim>\<open>/\<close> where the source may divide by zero\<close>
  "js_div x y =
     (if y = 0 then (if x = 0 then NaN else if 0 < x then PosInfinity else NegInfinity)
      else Num (fl (x / y)))"

definition js_times :: "jsnum \<Rightarrow> rat \<Rightarrow> jsnum" where
  "js_times x y =
     (case x of
        Num q \<Rightarrow> Num (fl (q * y))
      | NaN \<Rightarrow> NaN
      | PosInfinity \<Rightarrow> (if y = 0 then NaN else if 0 < y then PosInfinity else NegInfinity)
      | NegInfinity \<Rightarrow> (if y = 0 then NaN else if 0 < y then NegInfinity else PosInfinity))"

definition Math_round_num :: "jsnum \<Rightarrow> jsnum" where
  "Math_round_num x = (case x of Num q \<Rightarrow> Num (Math_round q) | _ \<Rightarrow> x)"

definition or_zero :: "jsnum option \<Rightarrow> jsnum" where
  \<comment> \<open>\<^verbatim>\<open>x || 0\<close>: \<^verbatim>\<open>undefined\<close> (here \<open>None\<close>), \<^verbatim>\<open>NaN\<close> and zero are falsy\<close>
  "or_zero x =
     (case x of None \<Rightarrow> Num 0 | Some NaN \<Rightarrow> Num 0
      | Some (Num q) \<Rightarrow> (if q = 0 then Num 0 else Num q) | Some y \<Rightarrow> y)"

definition ToInt32 :: "rat \<Rightarrow> int" where
  \<comment> \<open>\<^verbatim>\<open>x | 0\<close>: truncate, reduce modulo \<open>2 ^ 32\<close>, read as a signed 32-bit integer\<close>
  "ToInt32 x =
     (let n = (if 0 \<le> x then \<lfloor>x\<rfloor> else \<lceil>x\<rceil>); m = n mod 2 ^ 32
      in if 2 ^ 31 \<le> m then m - 2 ^ 32 else m)"

definition js_index :: "'a list \<Rightarrow> rat \<Rightarrow> 'a option" where
  \<comment> \<open>\<^verbatim>\<open>xs[i]\<close>: \<^verbatim>\<open>undefined\<close> (here \<open>None\<close>) unless \<open>i\<close> is an index of the array\<close>
  "js_index xs i =
     (if of_int \<lfloor>i\<rfloor> = i \<and> 0 \<le> i \<and> nat \<lfloor>i\<rfloor> < length xs then Some (xs ! nat \<lfloor>i\<rfloor>) else None)"

section \<open>Colour records\<close>

record rgba =
  rgba_r :: rat
  rgba_g :: rat
  rgba_b :: rat
  rgba_a :: rat

record hsva =
  hsva_h :: rat
  hsva_s :: rat
  hsva_v :: rat
  hsva_a :: rat

section \<open>HSVA to RGBA\<close>

definition sector :: "rat \<Rightarrow> rat" where
  \<comment> \<open>\<^verbatim>\<open>Math.floor(hueBy60) % 6\<close> with \<^verbatim>\<open>hueBy60 = hsva.h / 60\<close>\<close>
  "sector hue = jsmod (Math_floor (fl (hue / 60))) 6"

definition HSVAtoRGBA :: "hsva \<Rightarrow> rgba option" where
  \<comment> \<open>\<open>None\<close> stands for the record whose three channels are \<^verbatim>\<open>NaN\<close>: the three table
      lookups share one index, and \<^verbatim>\<open>Math.round(undefined * 255)\<close> is \<^verbatim>\<open>NaN\<close>.\<close>
  "HSVAtoRGBA hsva =
     (let saturation = fl (hsva_s hsva / 100);
          val = fl (hsva_v hsva / 100);
          chroma = fl (saturation * val);
          hueBy60 = fl (hsva_h hsva / 60);
          x = fl (chroma * fl (1 - \<bar>fl (jsmod hueBy60 2 - 1)\<bar>));
          m = fl (val - chroma);
          chroma = fl (chroma + m);
          x = fl (x + m);
          index = jsmod (Math_floor hueBy60) 6
      in case (js_index [chroma, x, m, m, x, chroma] index,
               js_index [x, chroma, chroma, x, m, m] index,
               js_index [m, m, x, chroma, chroma, x] index) of
           (Some red, Some green, Some blue) \<Rightarrow>
             Some \<lparr>rgba_r = Math_round (fl (red * 255)),
                   rgba_g = Math_round (fl (green * 255)),
                   rgba_b = Math_round (fl (blue * 255)),
                   rgba_a = hsva_a hsva\<rparr>
         | _ \<Rightarrow> None)"

section \<open>RGBA to HSVA\<close>

definition RGBAtoHSVA :: "rgba \<Rightarrow> hsva" where
  \<comment> \<open>the two divisions by \<^verbatim>\<open>chroma\<close> and \<^verbatim>\<open>xmax\<close> stand under the tests
      \<^verbatim>\<open>if (chroma)\<close> and \<^verbatim>\<open>if (xmax)\<close>, so their divisors are not zero\<close>
  "RGBAtoHSVA rgba =
     (let red = fl (rgba_r rgba / 255);
          green = fl (rgba_g rgba / 255);
          blue = fl (rgba_b rgba / 255);
          xmax = max red (max green blue);
          xmin = min red (min green blue);
          chroma = fl (xmax - xmin);
          val = xmax;
          hue = 0;
          saturation = 0;
          hue = (if chroma \<noteq> 0 \<and> xmax = red then fl (fl (green - blue) / chroma) else hue);
          hue = (if chroma \<noteq> 0 \<and> xmax = green then fl (2 + fl (fl (blue - red) / chroma)) else hue);
          hue = (if chroma \<noteq> 0 \<and> xmax = blue then fl (4 + fl (fl (red - green) / chroma)) else hue);
          saturation = (if chroma \<noteq> 0 \<and> xmax \<noteq> 0 then fl (chroma / xmax) else saturation);
          hue = Math_floor (fl (hue * 60))
      in \<lparr>hsva_h = (if hue < 0 then fl (hue + 360) else hue),
          hsva_s = Math_round (fl (saturation * 100)),
          hsva_v = Math_round (fl (val * 100)),
          hsva_a = rgba_a rgba\<rparr>)"

section \<open>HSVA to HSLA\<close>

record hsla =
  hsla_h :: rat
  hsla_s :: jsnum
  hsla_l :: rat
  hsla_a :: rat

definition lightness_of :: "hsva \<Rightarrow> rat" where
  \<comment> \<open>\<^verbatim>\<open>value * (1 - (hsva.s / 100) / 2)\<close> with \<^verbatim>\<open>value = hsva.v / 100\<close>\<close>
  "lightness_of hsva = fl (fl (hsva_v hsva / 100) * fl (1 - fl (fl (hsva_s hsva / 100) / 2)))"

definition HSVAtoHSLA :: "hsva \<Rightarrow> hsla" where
  \<comment> \<open>\<^verbatim>\<open>saturation\<close> is \<^verbatim>\<open>undefined\<close> (here \<open>None\<close>) unless the branch assigns it\<close>
  "HSVAtoHSLA hsva =
     (let val = fl (hsva_v hsva / 100);
          lightness = fl (val * fl (1 - fl (fl (hsva_s hsva / 100) / 2)));
          saturation =
            (if 0 < lightness \<and> lightness < 1
             then Some (Math_round_num
                    (js_times (js_div (fl (val - lightness)) (min lightness (fl (1 - lightness)))) 100))
             else None)
      in \<lparr>hsla_h = hsva_h hsva,
          hsla_s = or_zero saturation,
          hsla_l = Math_round (fl (lightness * 100)),
          hsla_a = hsva_a hsva\<rparr>)"

section \<open>Serialisation\<close>

record settings =
  settings_alpha :: bool
  settings_forceAlpha :: bool

definition hex_digit :: "nat \<Rightarrow> char" where
  "hex_digit n = ''0123456789abcdef'' ! n"

function digits16 :: "nat \<Rightarrow> string" where
  "digits16 n = (if n < 16 then [hex_digit n] else digits16 (n div 16) @ [hex_digit (n mod 16)])"
  by pat_completeness auto
termination
  by (relation "measure (\<lambda>n. n)") auto

definition int_toString16 :: "int \<Rightarrow> string" where
  \<comment> \<open>\<^verbatim>\<open>n.toString(16)\<close> of an integral Number\<close>
  "int_toString16 n = (if n < 0 then ''-'' @ digits16 (nat (- n)) else digits16 (nat n))"

definition Number_toString16 :: "rat \<Rightarrow> string option" where
  \<comment> \<open>the fractional digits of a Number that is not integral are not modelled: \<open>None\<close>\<close>
  "Number_toString16 x = (if of_int \<lfloor>x\<rfloor> = x then Some (int_toString16 \<lfloor>x\<rfloor>) else None)"

definition pad16 :: "rat \<Rightarrow> string \<Rightarrow> string" where
  \<comment> \<open>\<^verbatim>\<open>if (x < 16) { X = '0' + X; }\<close>\<close>
  "pad16 x X = (if x < 16 then ''0'' @ X else X)"

definition RGBAToHex :: "settings \<Rightarrow> rgba \<Rightarrow> string option" where
  "RGBAToHex st rgba =
     (case (Number_toString16 (rgba_r rgba), Number_toString16 (rgba_g rgba),
            Number_toString16 (rgba_b rgba)) of
        (Some R, Some G, Some B) \<Rightarrow>
          (let R = pad16 (rgba_r rgba) R;
               G = pad16 (rgba_g rgba) G;
               B = pad16 (rgba_b rgba) B;
               A = (if settings_alpha st \<and> (rgba_a rgba < 1 \<or> settings_forceAlpha st)
                    then (let alpha = ToInt32 (fl (rgba_a rgba * 255))
                          in pad16 (of_int alpha) (int_toString16 alpha))
                    else [])
           in Some (''#'' @ R @ G @ B @ A))
      | _ \<Rightarrow> None)"

definition RGBAToStr :: "(jsnum \<Rightarrow> string) \<Rightarrow> settings \<Rightarrow> rgba \<Rightarrow> string" where
  \<comment> \<open>\<open>str\<close> is the conversion of a Number to a string that a template literal applies\<close>
  "RGBAToStr str st rgba =
     (if \<not> settings_alpha st \<or> (rgba_a rgba = 1 \<and> \<not> settings_forceAlpha st)
      then ''rgb('' @ str (Num (rgba_r rgba)) @ '', '' @ str (Num (rgba_g rgba)) @ '', ''
             @ str (Num (rgba_b rgba)) @ '')''
      else ''rgba('' @ str (Num (rgba_r rgba)) @ '', '' @ str (Num (rgba_g rgba)) @ '', ''
             @ str (Num (rgba_b rgba)) @ '', '' @ str (Num (rgba_a rgba)) @ '')'')"

definition HSLAToStr :: "(jsnum \<Rightarrow> string) \<Rightarrow> settings \<Rightarrow> hsla \<Rightarrow> string" where
  "HSLAToStr str st hsla =
     (if \<not> settings_alpha st \<or> (hsla_a hsla = 1 \<and> \<not> settings_forceAlpha st)
      then ''hsl('' @ str (Num (hsla_h hsla)) @ '', '' @ str (hsla_s hsla) @ ''%, ''
             @ str (Num (hsla_l hsla)) @ ''%)''
      else ''hsla('' @ str (Num (hsla_h hsla)) @ '', '' @ str (hsla_s hsla) @ ''%, ''
             @ str (Num (hsla_l hsla)) @ ''%, '' @ str (Num (hsla_a hsla)) @ '')'')"

section \<open>Strings and regular expressions\<close>

text \<open>
  A string is the list of its code units; the model covers the code units below 256. The two
  regular expressions of the source are run by a backtracking matcher in continuation-passing
  style, which tries the alternatives in the order of the ECMAScript semantics: a greedy
  quantifier the longest repetition first, a lazy one the shortest first, an alternation its
  left branch first. Literals are compared after canonicalisation, as the flag \<^verbatim>\<open>i\<close> asks.
\<close>

definition canonicalize :: "char \<Rightarrow> char" where
  "canonicalize c =
     (case map_of (zip ''abcdefghijklmnopqrstuvwxyz'' ''ABCDEFGHIJKLMNOPQRSTUVWXYZ'') c of
        Some u \<Rightarrow> u | None \<Rightarrow> c)"

datatype regex =
    Lit char
  | Many "char \<Rightarrow> bool" nat bool
  | Seq regex regex
  | Alt regex regex
  | Group nat regex
  | Bol
  | Eol

type_synonym captures = "nat \<Rightarrow> string option"

fun first_some :: "('a \<Rightarrow> 'b option) \<Rightarrow> 'a list \<Rightarrow> 'b option" where
  "first_some f [] = None"
| "first_some f (x # xs) = (case f x of Some y \<Rightarrow> Some y | None \<Rightarrow> first_some f xs)"

fun rmatch ::
  "regex \<Rightarrow> string \<Rightarrow> nat \<Rightarrow> captures \<Rightarrow> (nat \<Rightarrow> captures \<Rightarrow> 'a option) \<Rightarrow> 'a option" where
  "rmatch (Lit c) str i cs k =
     (if i < length str \<and> canonicalize (str ! i) = canonicalize c then k (Suc i) cs else None)"
| "rmatch (Many cls lo greedy) str i cs k =
     (let hi = length (takeWhile cls (drop i str));
          counts = (if greedy then rev [lo ..< Suc hi] else [lo ..< Suc hi])
      in first_some (\<lambda>n. k (i + n) cs) counts)"
| "rmatch (Seq p q) str i cs k = rmatch p str i cs (\<lambda>j cs'. rmatch q str j cs' k)"
| "rmatch (Alt p q) str i cs k =
     (case rmatch p str i cs k of Some y \<Rightarrow> Some y | None \<Rightarrow> rmatch q str i cs k)"
| "rmatch (Group n p) str i cs k =
     rmatch p str i cs (\<lambda>j cs'. k j (cs'(n \<mapsto> take (j - i) (drop i str))))"
| "rmatch Bol str i cs k = (if i = 0 then k i cs else None)"
| "rmatch Eol str i cs k = (if i = length str then k i cs else None)"

fun seqs :: "regex list \<Rightarrow> regex" where
  "seqs [] = Many (\<lambda>_. False) 0 True"
| "seqs [p] = p"
| "seqs (p # ps) = Seq p (seqs ps)"

definition RegExp_exec :: "regex \<Rightarrow> string \<Rightarrow> (nat \<times> nat \<times> captures) option" where
  \<comment> \<open>\<^verbatim>\<open>regex.exec(str)\<close> without the flags \<^verbatim>\<open>g\<close> and \<^verbatim>\<open>y\<close>: the first start position with
      a match; the result is the start, the end and the captures, \<open>None\<close> is \<^verbatim>\<open>null\<close>\<close>
  "RegExp_exec re str =
     first_some (\<lambda>i. rmatch re str i Map.empty (\<lambda>j cs. Some (i, j, cs))) [0 ..< Suc (length str)]"

definition line_terminator :: "char \<Rightarrow> bool" where
  "line_terminator c = (c = CHR 0x0A \<or> c = CHR 0x0D)"

definition js_whitespace :: "char \<Rightarrow> bool" where
  \<comment> \<open>the white space and line terminators that \<^verbatim>\<open>trim\<close> removes\<close>
  "js_whitespace c = (c \<in> set [CHR 0x09, CHR 0x0A, CHR 0x0B, CHR 0x0C, CHR 0x0D, CHR 0x20, CHR 0xA0])"

definition trim :: "string \<Rightarrow> string" where
  "trim s = rev (dropWhile js_whitespace (rev (dropWhile js_whitespace s)))"

section \<open>CSS variables\<close>

definition cssvar_regex :: regex where
  \<comment> \<open>\<^verbatim>\<open>/^var\((--.+)\)$/i\<close>\<close>
  "cssvar_regex = seqs [Bol, Lit CHR ''v'', Lit CHR ''a'', Lit CHR ''r'', Lit CHR ''('',
     Group 1 (seqs [Lit CHR ''-'', Lit CHR ''-'', Many (\<lambda>c. \<not> line_terminator c) 1 True]),
     Lit CHR '')'', Eol]"

definition checkIfCSSVar :: "string \<Rightarrow> bool \<times> string option" where
  \<comment> \<open>the pair of \<^verbatim>\<open>isCSSVar\<close> and \<^verbatim>\<open>cssVar\<close>; \<open>None\<close> is \<^verbatim>\<open>undefined\<close>\<close>
  "checkIfCSSVar str =
     (case RegExp_exec cssvar_regex str of
        None \<Rightarrow> (False, None)
      | Some (i, j, cs) \<Rightarrow> (True, cs 1))"

definition getCSSVar :: "(string \<Rightarrow> string option) option \<Rightarrow> string \<Rightarrow> string option" where
  \<comment> \<open>The first argument is the platform: \<open>None\<close> when \<^verbatim>\<open>window.getComputedStyle\<close> is missing,
      else the function \<^verbatim>\<open>getPropertyValue\<close> of the computed style of the document root, whose
      result \<open>None\<close> is \<^verbatim>\<open>null\<close> or \<^verbatim>\<open>undefined\<close>. The result \<open>None\<close> is \<^verbatim>\<open>null\<close>.\<close>
  "getCSSVar getComputedStyle cssVar =
     (case getComputedStyle of
        None \<Rightarrow> None
      | Some getPropertyValue \<Rightarrow>
          Some (case getPropertyValue cssVar of
                  None \<Rightarrow> cssVar
                | Some v \<Rightarrow> (if trim v = [] then cssVar else trim v)))"

text \<open>The three values that the channel tables of \<open>HSVAtoRGBA\<close> hold.\<close>

definition hsv_m :: "hsva \<Rightarrow> rat" where
  "hsv_m c = fl (fl (hsva_v c / 100) - fl (fl (hsva_s c / 100) * fl (hsva_v c / 100)))"

definition hsv_chroma :: "hsva \<Rightarrow> rat" where
  "hsv_chroma c = fl (fl (fl (hsva_s c / 100) * fl (hsva_v c / 100)) + hsv_m c)"

definition hsv_x :: "hsva \<Rightarrow> rat" where
  "hsv_x c = fl (fl (fl (fl (hsva_s c / 100) * fl (hsva_v c / 100))
                   * fl (1 - \<bar>fl (jsmod (fl (hsva_h c / 60)) 2 - 1)\<bar>)) + hsv_m c)"


section \<open>Parsing a colour string\<close>

text \<open>
  \<open>strToRGBA\<close> asks the canvas of the platform to normalise the string: it assigns the
  string to \<^verbatim>\<open>ctx.fillStyle\<close> and reads the property back. The canvas is a parameter of the
  model. The object that \<open>strToRGBA\<close> returns has four properties, each a Number or
  \<^verbatim>\<open>undefined\<close> (here \<open>None\<close>).
\<close>

datatype js_error = TypeError

record rgba_object =
  object_r :: "jsnum option"
  object_g :: "jsnum option"
  object_b :: "jsnum option"
  object_a :: "jsnum option"

definition is_digit :: "char \<Rightarrow> bool" where
  "is_digit c = (c \<in> set ''0123456789'')"

definition digit_value :: "char \<Rightarrow> nat" where
  "digit_value c = of_char c - 48"

definition decimal_value :: "string \<Rightarrow> nat" where
  "decimal_value ds = foldl (\<lambda>n c. 10 * n + digit_value c) 0 ds"

definition is_hex_digit :: "char \<Rightarrow> bool" where
  "is_hex_digit c = (c \<in> set ''0123456789abcdefABCDEF'')"

definition hex_value :: "char \<Rightarrow> nat" where
  "hex_value c =
     (if is_digit c then of_char c - 48
      else if c \<in> set ''abcdef'' then of_char c - 87 else of_char c - 55)"

definition StringToNumber :: "string \<Rightarrow> jsnum" where
  \<comment> \<open>the conversion of a string to a Number, on the strings of digits and dots that the
      groups of the pattern capture (any other string is taken to \<^verbatim>\<open>NaN\<close>): the empty string is
      0, and a decimal literal has at most one dot and at least one digit\<close>
  "StringToNumber s =
     (let whole = takeWhile is_digit s; rest = dropWhile is_digit s
      in if s = [] then Num 0
         else if rest = [] then Num (fl (of_nat (decimal_value whole)))
         else if hd rest = CHR ''.'' \<and> list_all is_digit (tl rest) \<and> (whole \<noteq> [] \<or> tl rest \<noteq> [])
         then Num (fl (of_nat (decimal_value whole)
                + of_nat (decimal_value (tl rest)) / 10 ^ length (tl rest)))
         else NaN)"

definition times_one :: "string option \<Rightarrow> jsnum" where
  \<comment> \<open>\<^verbatim>\<open>match[n] * 1\<close>; a group that took no part in the match is \<^verbatim>\<open>undefined\<close>\<close>
  "times_one m = (case m of None \<Rightarrow> NaN | Some s \<Rightarrow> StringToNumber s)"

definition toFixed2 :: "jsnum \<Rightarrow> jsnum" where
  \<comment> \<open>\<^verbatim>\<open>+x.toFixed(2)\<close>: the nearest multiple of 0.01, the larger one on a tie, read back as
      a Number; from \<open>10 ^ 21\<close> on \<^verbatim>\<open>toFixed\<close> prints the Number itself\<close>
  "toFixed2 x =
     (case x of
        Num q \<Rightarrow>
          (if 10 ^ 21 \<le> \<bar>q\<bar> then Num q
           else if q < 0 then Num (- fl (of_int \<lfloor>100 * (- q) + 1 / 2\<rfloor> / 100))
           else Num (fl (of_int \<lfloor>100 * q + 1 / 2\<rfloor> / 100)))
      | _ \<Rightarrow> x)"

fun replace_first :: "char \<Rightarrow> string \<Rightarrow> string" where
  \<comment> \<open>\<^verbatim>\<open>s.replace(c, '')\<close>: the first occurrence is removed\<close>
  "replace_first c [] = []"
| "replace_first c (x # xs) = (if x = c then xs else x # replace_first c xs)"

fun match_pairs :: "string \<Rightarrow> string list" where
  \<comment> \<open>\<^verbatim>\<open>s.match(/.{2}/g)\<close>: the successive pairs of characters that are no line terminators;
      the empty list stands for \<^verbatim>\<open>null\<close>\<close>
  "match_pairs (x # y # rest) =
     (if \<not> line_terminator x \<and> \<not> line_terminator y then [x, y] # match_pairs rest
      else match_pairs (y # rest))"
| "match_pairs rest = []"

definition parseInt16 :: "string \<Rightarrow> jsnum" where
  \<comment> \<open>\<^verbatim>\<open>parseInt(s, 16)\<close>: white space, a sign and the prefix \<^verbatim>\<open>0x\<close> are skipped, the longest
      run of hexadecimal digits is read, and no digit gives \<^verbatim>\<open>NaN\<close>\<close>
  "parseInt16 s =
     (let s = dropWhile js_whitespace s;
          negative = (s \<noteq> [] \<and> hd s = CHR ''-'');
          s = (if s \<noteq> [] \<and> (hd s = CHR ''-'' \<or> hd s = CHR ''+'') then tl s else s);
          s = (if take 2 s = ''0x'' \<or> take 2 s = ''0X'' then drop 2 s else s);
          ds = takeWhile is_hex_digit s;
          n = foldl (\<lambda>n c. 16 * n + hex_value c) 0 ds
      in if ds = [] then NaN
         else Num (fl (if negative then - of_nat n else of_nat n)))"

definition element :: "'a list \<Rightarrow> nat \<Rightarrow> 'a option" where
  \<comment> \<open>\<^verbatim>\<open>match[i]\<close>, \<^verbatim>\<open>undefined\<close> beyond the end of the array\<close>
  "element xs i = (if i < length xs then Some (xs ! i) else None)"

definition rgb_regex :: regex where
  \<comment> \<open>\<^verbatim>\<open>/^((rgba)|rgb)[\D]+([\d.]+)[\D]+([\d.]+)[\D]+([\d.]+)[\D]*?([\d.]+|$)/i\<close>\<close>
  "rgb_regex = seqs [Bol,
     Group 1 (Alt (Group 2 (seqs [Lit CHR ''r'', Lit CHR ''g'', Lit CHR ''b'', Lit CHR ''a'']))
                  (seqs [Lit CHR ''r'', Lit CHR ''g'', Lit CHR ''b''])),
     Many (\<lambda>c. \<not> is_digit c) 1 True,
     Group 3 (Many (\<lambda>c. is_digit c \<or> c = CHR ''.'') 1 True),
     Many (\<lambda>c. \<not> is_digit c) 1 True,
     Group 4 (Many (\<lambda>c. is_digit c \<or> c = CHR ''.'') 1 True),
     Many (\<lambda>c. \<not> is_digit c) 1 True,
     Group 5 (Many (\<lambda>c. is_digit c \<or> c = CHR ''.'') 1 True),
     Many (\<lambda>c. \<not> is_digit c) 0 False,
     Group 6 (Alt (Many (\<lambda>c. is_digit c \<or> c = CHR ''.'') 1 True) Eol)]"


definition rgba_of_style :: "string \<Rightarrow> js_error + rgba_object" where
  \<comment> \<open>the body of \<open>strToRGBA\<close> from \<^verbatim>\<open>regex.exec(ctx.fillStyle)\<close> on; \<^verbatim>\<open>null.map\<close> raises\<close>
  "rgba_of_style style =
     (case RegExp_exec rgb_regex style of
        Some (i, j, cs) \<Rightarrow>
          Inr \<lparr>object_r = Some (times_one (cs 3)),
               object_g = Some (times_one (cs 4)),
               object_b = Some (times_one (cs 5)),
               object_a = Some (toFixed2 (times_one (cs 6)))\<rparr>
      | None \<Rightarrow>
          (case match_pairs (replace_first CHR ''#'' style) of
             [] \<Rightarrow> Inl TypeError
           | ms \<Rightarrow>
               (let match = map parseInt16 ms
                in Inr \<lparr>object_r = element match 0,
                        object_g = element match 1,
                        object_b = element match 2,
                        object_a = Some (Num 1)\<rparr>)))"





section \<open>Notions of the specification\<close>

definition alpha_suppressed :: "settings \<Rightarrow> rat \<Rightarrow> bool" where
  \<comment> \<open>the specification's words: alpha is suppressed when the alpha setting is disabled, or
      the alpha is 1 and the force-alpha setting is off\<close>
  "alpha_suppressed st a = (\<not> settings_alpha st \<or> (a = 1 \<and> \<not> settings_forceAlpha st))"

text \<open>
  The conversion from RGBA to HSVA in the specification's words: the channels are normalised,
  the chroma is the maximum minus the minimum, the hue is chosen by the maximal channel (red
  first, then green, then blue), scaled by 60, floored and wrapped by 360 when negative, and is
  0 when the chroma is 0; the saturation is the chroma over the maximum, 0 when the maximum
  is 0; the value is the maximum; both are rounded to the nearest integer percent. The
  arithmetic is that of Numbers.
\<close>

definition RGBAtoHSVA_spec :: "rgba \<Rightarrow> hsva" where
  "RGBAtoHSVA_spec rgba =
     (let red = fl (rgba_r rgba / 255);
          green = fl (rgba_g rgba / 255);
          blue = fl (rgba_b rgba / 255);
          xmax = max red (max green blue);
          xmin = min red (min green blue);
          chroma = fl (xmax - xmin);
          hue = (if chroma = 0 then 0
                 else if xmax = red then fl (fl (green - blue) / chroma)
                 else if xmax = green then fl (2 + fl (fl (blue - red) / chroma))
                 else fl (4 + fl (fl (red - green) / chroma)));
          degrees = Math_floor (fl (hue * 60));
          saturation = (if xmax = 0 then 0 else fl (chroma / xmax))
      in \<lparr>hsva_h = (if degrees < 0 then fl (degrees + 360) else degrees),
          hsva_s = Math_round (fl (saturation * 100)),
          hsva_v = Math_round (fl (xmax * 100)),
          hsva_a = rgba_a rgba\<rparr>)"

definition wrap_degrees :: "rat \<Rightarrow> rat" where
  "wrap_degrees hue = (let d = Math_floor (fl (hue * 60)) in if d < 0 then fl (d + 360) else d)"


definition hex2 :: "int \<Rightarrow> string" where
  \<comment> \<open>a byte as two lowercase hexadecimal digits, padded with a zero\<close>
  "hex2 n = [hex_digit (nat n div 16), hex_digit (nat n mod 16)]"


text \<open>
  The pattern \<^verbatim>\<open>var(--name)\<close> of the specification, as a function that returns the variable name
  \<^verbatim>\<open>--name\<close>: the string is \<^verbatim>\<open>var\<close> in any letter case, \<^verbatim>\<open>(--\<close>, a name that is not empty and
  has no line terminator, and a closing parenthesis at the end.
\<close>

definition var_reference :: "string \<Rightarrow> string option" where
  "var_reference str =
     (if 8 \<le> length str
         \<and> map canonicalize (take 3 str) = ''VAR'' \<and> take 3 (drop 3 str) = ''(--''
         \<and> last str = CHR '')''
         \<and> list_all (\<lambda>c. \<not> line_terminator c) (butlast (drop 6 str))
      then Some (butlast (drop 4 str)) else None)"

text \<open>Two auxiliary notions for the run of the matcher on that pattern.\<close>

definition tail_k :: "string \<Rightarrow> nat \<Rightarrow> (nat \<times> nat \<times> captures) option" where
  "tail_k str n =
     (if 6 + n < length str \<and> str ! (6 + n) = CHR '')'' \<and> Suc (6 + n) = length str
      then Some (0, Suc (6 + n), [1 \<mapsto> take (Suc (Suc n)) (drop 4 str)]) else None)"

definition var_prefix :: "string \<Rightarrow> bool" where
  "var_prefix str =
     (5 < length str \<and> canonicalize (str ! 0) = CHR ''V'' \<and> canonicalize (str ! 1) = CHR ''A''
      \<and> canonicalize (str ! 2) = CHR ''R'' \<and> str ! 3 = CHR ''('' \<and> str ! 4 = CHR ''-''
      \<and> str ! 5 = CHR ''-'')"

text \<open>
  Auxiliary notions for the round trip: the unit \<open>eps\<close> that bounds the rounding error of a
  Number in \<open>[-1, 1]\<close>, and the hue (before scaling) and the saturation of \<open>RGBAtoHSVA\<close> as
  functions of the normalised channels.
\<close>

definition eps :: rat where
  "eps = 1 / 2 ^ 54"

definition rgb_hue :: "rat \<Rightarrow> rat \<Rightarrow> rat \<Rightarrow> rat" where
  "rgb_hue red green blue =
     (let xmax = max red (max green blue);
          chroma = fl (xmax - min red (min green blue))
      in if chroma = 0 then 0
         else if xmax = red then fl (fl (green - blue) / chroma)
         else if xmax = green then fl (2 + fl (fl (blue - red) / chroma))
         else fl (4 + fl (fl (red - green) / chroma)))"

definition rgb_saturation :: "rat \<Rightarrow> rat \<Rightarrow> rat \<Rightarrow> rat" where
  "rgb_saturation red green blue =
     (let xmax = max red (max green blue);
          chroma = fl (xmax - min red (min green blue))
      in if xmax = 0 then 0 else fl (chroma / xmax))"

section \<open>Facts about rounding\<close>

lemma rhe_bounds: "of_int (rhe y) - y \<le> 1/2 \<and> y - of_int (rhe y) \<le> 1/2"
  unfolding rhe_def Let_def by (auto; linarith)

lemma rhe_of_int: "rhe (of_int n) = n"
  by (simp add: rhe_def)

lemma rhe_floor: "\<lfloor>y\<rfloor> \<le> rhe y \<and> rhe y \<le> \<lfloor>y\<rfloor> + 1"
  by (simp add: rhe_def Let_def)

lemma rhe_mono: assumes "x \<le> y" shows "rhe x \<le> rhe y"
proof (cases "\<lfloor>x\<rfloor> = \<lfloor>y\<rfloor>")
  case True
  then show ?thesis using assms by (auto simp: rhe_def Let_def)
next
  case False
  then have "\<lfloor>x\<rfloor> + 1 \<le> \<lfloor>y\<rfloor>" using assms floor_mono[of x y] by linarith
  then show ?thesis using rhe_floor[of x] rhe_floor[of y] by linarith
qed

lemma rhe_uminus: "rhe (- y) = - rhe y"
proof (cases "of_int \<lfloor>y\<rfloor> = y")
  case True
  then have "rhe (- of_int \<lfloor>y\<rfloor>) = - rhe (of_int \<lfloor>y\<rfloor> :: rat)"
    using rhe_of_int[of "- \<lfloor>y\<rfloor>"] rhe_of_int[of "\<lfloor>y\<rfloor>"] by simp
  then show ?thesis using True by simp
next
  case False
  then have f: "\<lfloor>- y\<rfloor> = - \<lfloor>y\<rfloor> - 1"
    by (metis ceiling_altdef ceiling_def minus_diff_eq uminus_add_conv_diff minus_minus)
  show ?thesis unfolding rhe_def Let_def f by (auto simp: field_simps; presburger?)
qed

lemma powi_nat: "0 \<le> k \<Longrightarrow> (2::rat) powi k = of_int (2 ^ nat k)"
  by (simp add: power_int_def)

lemma powi_pos: "0 < (2::rat) powi k"
  by simp

lemma powi_step: "(2::rat) powi (k + 1) = 2 * 2 powi k"
  by (simp add: power_int_add)

lemma powi_less_iff: "(2::rat) powi m < 2 powi n \<longleftrightarrow> m < n"
proof
  assume h: "(2::rat) powi m < 2 powi n"
  show "m < n"
  proof (rule ccontr)
    assume "\<not> m < n"
    then have "n \<le> m" by simp
    then have "(2::rat) powi n \<le> 2 powi m" by (rule power_int_increasing) simp
    with h show False by simp
  qed
next
  assume "m < n"
  then show "(2::rat) powi m < 2 powi n" by (rule power_int_strict_increasing) simp
qed

lemma powi_le_iff: "(2::rat) powi m \<le> 2 powi n \<longleftrightarrow> m \<le> n"
  using powi_less_iff[of n m] by (auto simp: not_less[symmetric])

lemma ilog2_bounds:
  assumes "0 < x"
  shows "2 powi ilog2 x \<le> x \<and> x < 2 powi (ilog2 x + 1)"
proof -
  obtain a b where q: "quotient_of x = (a, b)" by (cases "quotient_of x")
  then have b: "0 < b" using quotient_of_denom_pos by blast
  have x: "x = of_int a / of_int b" using q by (rule quotient_of_div)
  with assms b have a: "0 < a" by (simp add: zero_less_divide_iff)
  define la lb where "la = bitlen a" and "lb = bitlen b"
  have la: "2 ^ nat (la - 1) \<le> a" "a < 2 ^ nat la" using bitlen_bounds[OF a] by (simp_all add: la_def)
  have lb: "2 ^ nat (lb - 1) \<le> b" "b < 2 ^ nat lb" using bitlen_bounds[OF b] by (simp_all add: lb_def)
  have la1: "1 \<le> la" using a by (simp add: la_def bitlen_alt_def)
  have lb1: "1 \<le> lb" using b by (simp add: lb_def bitlen_alt_def)
  have A: "(2::rat) powi (la - 1) \<le> of_int a" "of_int a < (2::rat) powi la"
    using la la1 by (simp_all only: powi_nat of_int_le_iff of_int_less_iff)
  have B: "(2::rat) powi (lb - 1) \<le> of_int b" "of_int b < (2::rat) powi lb"
    using lb lb1 by (simp_all only: powi_nat of_int_le_iff of_int_less_iff)
  define k where "k = la - lb"
  have bpos: "(0::rat) < of_int b" using b by simp
  have up: "x < 2 powi (k + 1)"
  proof -
    have "of_int a < 2 powi (k + 1) * (2::rat) powi (lb - 1)"
      using A(2) by (simp add: k_def power_int_add[symmetric])
    also have "\<dots> \<le> 2 powi (k + 1) * of_int b"
      using B(1) powi_pos[of "k + 1"] by (simp only: mult_le_cancel_left_pos)
    finally show ?thesis using bpos by (simp add: x pos_divide_less_eq)
  qed
  have lo: "2 powi (k - 1) \<le> x"
  proof -
    have "2 powi (k - 1) * of_int b \<le> 2 powi (k - 1) * (2::rat) powi lb"
      using B(2) powi_pos[of "k - 1"] by (simp only: mult_le_cancel_left_pos less_imp_le)
    also have "\<dots> = 2 powi (la - 1)" by (simp add: k_def power_int_add[symmetric])
    finally show ?thesis using bpos A(1) by (simp add: x pos_le_divide_eq)
  qed
  have il: "ilog2 x = (if 2 powi k \<le> x then k else k - 1)"
    by (simp add: ilog2_def q la_def lb_def k_def Let_def)
  show ?thesis
  proof (cases "2 powi k \<le> x")
    case True then show ?thesis using up il by simp
  next
    case False then show ?thesis using lo il by simp
  qed
qed

lemma ilog2_unique:
  assumes "2 powi k \<le> x" "x < 2 powi (k + 1)"
  shows "ilog2 x = k"
proof -
  have x: "0 < x" using assms(1) powi_pos[of k] by linarith
  note b = ilog2_bounds[OF x]
  have "2 powi k < (2::rat) powi (ilog2 x + 1)" using assms(1) b by linarith
  then have 1: "k < ilog2 x + 1" by (simp add: powi_less_iff)
  have "2 powi ilog2 x < (2::rat) powi (k + 1)" using assms(2) b by linarith
  then have 2: "ilog2 x < k + 1" by (simp add: powi_less_iff)
  show ?thesis using 1 2 by simp
qed

lemma ilog2_mono:
  assumes "0 < x" "x \<le> y"
  shows "ilog2 x \<le> ilog2 y"
proof -
  have y: "0 < y" using assms by simp
  have "2 powi ilog2 x < (2::rat) powi (ilog2 y + 1)"
    using ilog2_bounds[OF assms(1)] ilog2_bounds[OF y] assms(2) by linarith
  then show ?thesis by (simp add: powi_less_iff)
qed


lemma ulp_exp_uminus: "ulp_exp (- x) = ulp_exp x"
  by (simp add: ulp_exp_def)

lemma ulp_exp_abs: "ulp_exp \<bar>x\<bar> = ulp_exp x"
  by (simp add: ulp_exp_def)

lemma ulp_exp_ge: "- 1074 \<le> ulp_exp x"
  by (simp add: ulp_exp_def)

lemma ulp_exp_mono: "0 < x \<Longrightarrow> x \<le> y \<Longrightarrow> ulp_exp x \<le> ulp_exp y"
  using ilog2_mono[of x y] by (simp add: ulp_exp_def)

lemma ulp_exp_less: "0 < x \<Longrightarrow> x < 2 powi k \<Longrightarrow> - 1074 \<le> k - 53 \<Longrightarrow> ulp_exp x \<le> k - 53"
proof -
  assume x: "0 < x" and k: "x < 2 powi k" and m: "- 1074 \<le> k - 53"
  have "2 powi ilog2 x < (2::rat) powi k" using ilog2_bounds[OF x] k by linarith
  then have "ilog2 x < k" by (simp add: powi_less_iff)
  then show ?thesis using x m by (simp add: ulp_exp_def)
qed

lemma fl_uminus: "fl (- x) = - fl x"
  by (simp add: fl_def ulp_exp_uminus rhe_uminus)

lemma fl_le_grid:
  assumes "x \<le> of_int n * 2 powi e" "ulp_exp x \<le> e"
  shows "fl x \<le> of_int n * 2 powi e"
proof (cases "x = 0")
  case True
  then show ?thesis using assms by (simp add: fl_def)
next
  case False
  define u where "u = ulp_exp x"
  have e: "0 \<le> e - u" using assms(2) by (simp add: u_def)
  have "x / 2 powi u \<le> of_int n * 2 powi e / 2 powi u"
    using assms(1) powi_pos[of u] by (simp only: divide_right_mono less_imp_le)
  also have "of_int n * 2 powi e / 2 powi u = of_int n * (2::rat) powi (e - u)"
    by (simp add: power_int_diff)
  also have "\<dots> = of_int (n * 2 ^ nat (e - u))" using e by (simp add: powi_nat)
  finally have "rhe (x / 2 powi u) \<le> n * 2 ^ nat (e - u)"
    using rhe_mono rhe_of_int by metis
  then have "(of_int (rhe (x / 2 powi u)) :: rat) \<le> of_int (n * 2 ^ nat (e - u))"
    by (simp only: of_int_le_iff)
  then have "of_int (rhe (x / 2 powi u)) * 2 powi u \<le> of_int (n * 2 ^ nat (e - u)) * (2::rat) powi u"
    using powi_pos[of u] by (simp only: mult_le_cancel_right_pos)
  also have "of_int (n * 2 ^ nat (e - u)) * (2::rat) powi u = of_int n * (2 powi (e - u) * 2 powi u)"
    using e by (simp add: powi_nat)
  also have "\<dots> = of_int n * 2 powi e" by (simp add: power_int_add[symmetric])
  finally show ?thesis using False by (simp add: fl_def u_def)
qed

lemma fl_ge_grid:
  assumes "of_int n * 2 powi e \<le> x" "ulp_exp x \<le> e"
  shows "of_int n * 2 powi e \<le> fl x"
proof -
  have "- x \<le> of_int (- n) * 2 powi e" using assms(1) by simp
  then have "fl (- x) \<le> of_int (- n) * 2 powi e"
    using assms(2) by (intro fl_le_grid) (simp_all add: ulp_exp_uminus)
  then show ?thesis by (simp add: fl_uminus)
qed

lemma fl_repr:
  assumes "x = of_int n * 2 powi e" "ulp_exp x \<le> e"
  shows "fl x = x"
  using fl_le_grid[of x n e] fl_ge_grid[of n e x] assms by simp

lemma fl_nonneg: "0 \<le> x \<Longrightarrow> 0 \<le> fl x"
  using fl_ge_grid[of 0 "ulp_exp x" x] by simp

lemma fl_nonpos: "x \<le> 0 \<Longrightarrow> fl x \<le> 0"
  using fl_le_grid[of x 0 "ulp_exp x"] by simp

lemma fl_mono_pos:
  assumes "0 < x" "x \<le> y"
  shows "fl x \<le> fl y"
proof -
  have y: "0 < y" using assms by simp
  have le: "ulp_exp x \<le> ulp_exp y" using assms by (rule ulp_exp_mono)
  show ?thesis
  proof (cases "ulp_exp x = ulp_exp y")
    case True
    have "x / 2 powi ulp_exp y \<le> y / 2 powi ulp_exp y"
      using assms(2) powi_pos[of "ulp_exp y"] by (simp only: divide_right_mono less_imp_le)
    then have "rhe (x / 2 powi ulp_exp y) \<le> rhe (y / 2 powi ulp_exp y)" by (rule rhe_mono)
    then have "(of_int (rhe (x / 2 powi ulp_exp y)) :: rat) \<le> of_int (rhe (y / 2 powi ulp_exp y))"
      by (simp only: of_int_le_iff)
    then have "of_int (rhe (x / 2 powi ulp_exp y)) * 2 powi ulp_exp y
        \<le> of_int (rhe (y / 2 powi ulp_exp y)) * (2::rat) powi ulp_exp y"
      using powi_pos[of "ulp_exp y"] by (simp only: mult_le_cancel_right_pos)
    then show ?thesis using assms y True by (simp add: fl_def)
  next
    case False
    with le have lt: "ulp_exp x < ulp_exp y" by simp
    define k where "k = ilog2 y"
    have ax: "\<bar>x\<bar> = x" and ay: "\<bar>y\<bar> = y" using assms y by simp_all
    have ey: "ulp_exp y = k - 52" using lt ulp_exp_ge[of x] unfolding ulp_exp_def k_def ay by linarith
    have "ilog2 x - 52 \<le> ulp_exp x" by (simp add: ulp_exp_def ax)
    then have "ilog2 x + 1 \<le> k" using lt ey by simp
    then have "(2::rat) powi (ilog2 x + 1) \<le> 2 powi k" by (simp only: powi_le_iff)
    then have xB: "x \<le> of_int 1 * 2 powi k" using ilog2_bounds[OF assms(1)] by simp
    have By: "of_int 1 * 2 powi k \<le> y" using ilog2_bounds[OF y] by (simp add: k_def)
    have "fl x \<le> of_int 1 * 2 powi k" using xB lt ey by (intro fl_le_grid) simp_all
    moreover have "of_int 1 * 2 powi k \<le> fl y" using By ey by (intro fl_ge_grid) simp_all
    ultimately show ?thesis by simp
  qed
qed

lemma fl_mono:
  assumes "x \<le> y"
  shows "fl x \<le> fl y"
proof -
  consider "0 < x" | "x \<le> 0" "0 \<le> y" | "y < 0" by linarith
  then show ?thesis
  proof cases
    case 1 then show ?thesis using assms by (rule fl_mono_pos)
  next
    case 2 then show ?thesis using fl_nonpos[of x] fl_nonneg[of y] by simp
  next
    case 3
    then have "fl (- y) \<le> fl (- x)" using assms by (intro fl_mono_pos) simp_all
    then show ?thesis by (simp add: fl_uminus)
  qed
qed

lemma fl_error: "\<bar>fl x - x\<bar> \<le> 2 powi ulp_exp x / 2"
proof (cases "x = 0")
  case True then show ?thesis by (simp add: fl_def)
next
  case False
  define p where "p = (2::rat) powi ulp_exp x"
  have p: "0 < p" by (simp add: p_def)
  define n where "n = rhe (x / p)"
  have "\<bar>of_int n - x / p\<bar> \<le> 1 / 2" using rhe_bounds[of "x / p"] unfolding n_def by linarith
  then have "\<bar>of_int n - x / p\<bar> * p \<le> 1 / 2 * p" using p by (simp only: mult_le_cancel_right_pos)
  moreover have "\<bar>of_int n - x / p\<bar> * p = \<bar>of_int n * p - x\<bar>"
  proof -
    have "\<bar>of_int n - x / p\<bar> * p = \<bar>of_int n - x / p\<bar> * \<bar>p\<bar>" using p by simp
    also have "\<dots> = \<bar>(of_int n - x / p) * p\<bar>" by (simp only: abs_mult)
    also have "(of_int n - x / p) * p = of_int n * p - x" using p by (simp add: left_diff_distrib)
    finally show ?thesis .
  qed
  ultimately have "\<bar>of_int n * p - x\<bar> \<le> p / 2" by simp
  then show ?thesis using False by (simp add: fl_def p_def n_def)
qed

lemma fl_grid53:
  assumes "\<bar>n\<bar> \<le> 2 ^ 53" "- 1074 \<le> e"
  shows "fl (of_int n * 2 powi e) = of_int n * 2 powi e"
proof -
  define y :: rat where "y = of_int n * 2 powi e"
  have pos: "fl (of_int m * 2 powi e) = of_int m * 2 powi e" if m: "0 < m" "m \<le> 2 ^ 53" for m :: int
  proof (cases "m = 2 ^ 53")
    case True
    have eq: "of_int m * (2::rat) powi e = of_int 1 * 2 powi (e + 53)"
      by (simp add: True power_int_add)
    have "ulp_exp (of_int 1 * 2 powi (e + 53)) \<le> e + 53"
      using assms(2) ilog2_unique[of "e + 53" "2 powi (e + 53)"]
      by (simp add: ulp_exp_def powi_less_iff)
    then have "fl (of_int 1 * 2 powi (e + 53)) = of_int 1 * 2 powi (e + 53)"
      by (intro fl_repr[of _ 1 "e + 53"]) simp_all
    then show ?thesis by (simp only: eq)
  next
    case False
    with m have lt: "m < 2 ^ 53" by simp
    have p: "0 < of_int m * (2::rat) powi e" using m by simp
    have "(of_int m :: rat) < of_int (2 ^ 53)" using lt by (simp only: of_int_less_iff)
    then have "of_int m * (2::rat) powi e < of_int (2 ^ 53) * 2 powi e"
      using powi_pos[of e] by (simp only: mult_less_cancel_right_pos)
    also have "\<dots> = 2 powi (e + 53)" by (simp add: power_int_add)
    finally have "ulp_exp (of_int m * 2 powi e) \<le> (e + 53) - 53"
      using p assms(2) by (intro ulp_exp_less) simp_all
    then show ?thesis by (intro fl_repr[of _ m e]) simp_all
  qed
  consider "n = 0" | "0 < n" | "n < 0" by linarith
  then show ?thesis
  proof cases
    case 1 then show ?thesis by (simp add: fl_def)
  next
    case 2 then show ?thesis using pos[of n] assms(1) by simp
  next
    case 3
    then have "fl (of_int (- n) * 2 powi e) = of_int (- n) * 2 powi e"
      using assms(1) by (intro pos) simp_all
    then show ?thesis using fl_uminus[of "of_int n * 2 powi e"] by simp
  qed
qed

lemma fl_int: "\<bar>n\<bar> \<le> 2 ^ 53 \<Longrightarrow> fl (of_int n) = of_int n"
  using fl_grid53[of n 0] by simp

lemma fl_mantissa:
  assumes "x \<noteq> 0"
  shows "\<bar>rhe (x / 2 powi ulp_exp x)\<bar> \<le> 2 ^ 53"
proof -
  define u where "u = ulp_exp x"
  have pos: "rhe (z / 2 powi ulp_exp z) \<le> 2 ^ 53" if z: "0 < z" for z
  proof -
    define w where "w = ulp_exp z"
    have w: "ilog2 z + 1 - w \<le> 53" using z by (simp add: w_def ulp_exp_def)
    have "z / 2 powi w < 2 powi (ilog2 z + 1) / 2 powi w"
      using ilog2_bounds[OF z] powi_pos[of w] by (simp only: divide_strict_right_mono)
    also have "\<dots> = 2 powi (ilog2 z + 1 - w)" by (simp add: power_int_diff)
    also have "\<dots> \<le> 2 powi 53" using w by (simp only: powi_le_iff)
    also have "\<dots> = of_int (2 ^ 53)" by (simp add: powi_nat)
    finally have "rhe (z / 2 powi w) \<le> rhe (of_int (2 ^ 53))" by (intro rhe_mono) simp
    then show ?thesis by (simp only: rhe_of_int w_def)
  qed
  have nn: "0 \<le> rhe (z / 2 powi ulp_exp z)" if z: "0 < z" for z
  proof -
    have "rhe (of_int 0) \<le> rhe (z / 2 powi ulp_exp z)" using z by (intro rhe_mono) simp
    then show ?thesis by (simp only: rhe_of_int)
  qed
  consider "0 < x" | "x < 0" using assms by linarith
  then show ?thesis
  proof cases
    case 1 then show ?thesis using pos[of x] nn[of x] by simp
  next
    case 2
    then have "0 < - x" by simp
    from pos[OF this] nn[OF this] show ?thesis
      by (simp add: ulp_exp_uminus rhe_uminus)
  qed
qed

lemma fl_idem: "fl (fl x) = fl x"
proof (cases "x = 0")
  case True then show ?thesis by (simp add: fl_def)
next
  case False
  then have "fl x = of_int (rhe (x / 2 powi ulp_exp x)) * 2 powi ulp_exp x" by (simp add: fl_def)
  moreover have "fl (of_int (rhe (x / 2 powi ulp_exp x)) * 2 powi ulp_exp x)
      = of_int (rhe (x / 2 powi ulp_exp x)) * 2 powi ulp_exp x"
    using fl_mantissa[OF False] ulp_exp_ge[of x] by (rule fl_grid53)
  ultimately show ?thesis by simp
qed

lemma fl_error_unit:
  assumes "\<bar>x\<bar> \<le> 1"
  shows "\<bar>fl x - x\<bar> \<le> 1 / 2 ^ 54"
proof -
  consider "x = 0" | "\<bar>x\<bar> = 1" | "0 < \<bar>x\<bar>" "\<bar>x\<bar> < 1" using assms by linarith
  then show ?thesis
  proof cases
    case 1 then show ?thesis by (simp add: fl_def)
  next
    case 2
    then have "x = 1 \<or> x = - 1" by linarith
    then show ?thesis using fl_int[of 1] fl_int[of "- 1"] by auto
  next
    case 3
    have "ulp_exp \<bar>x\<bar> \<le> 0 - 53" using 3 by (intro ulp_exp_less) simp_all
    then have "(2::rat) powi ulp_exp x \<le> 2 powi (- 53)" by (simp only: powi_le_iff ulp_exp_abs)
    also have "\<dots> = 1 / 2 ^ 53" by (simp add: power_int_def field_simps)
    finally show ?thesis using fl_error[of x] by simp
  qed
qed

lemma fl_0: "fl 0 = 0"
  by (simp add: fl_def)

lemma fl_6: "fl 6 = 6"
  by code_simp

lemma jsmod_0: "jsmod 0 y = 0"
  by (simp add: jsmod_def)

lemma jsmod_6_2: "jsmod 6 2 = 0"
  by (simp add: jsmod_def)

lemma jsmod_6_6: "jsmod 6 6 = 0"
  by (simp add: jsmod_def)

section \<open>Hue wrap\<close>

lemma sector_0: "sector 0 = 0"
  by (simp add: sector_def fl_0 Math_floor_def jsmod_0)

lemma sector_360: "sector 360 = 0"
  by (simp add: sector_def fl_6 Math_floor_def jsmod_6_6)

text \<open>
  Claim C3. For every saturation, value and alpha, \<open>HSVAtoRGBA\<close> returns for the hue 360 exactly
  the record it returns for the hue 0, and that record is a proper one (the table lookups
  succeed): both hues fall in sector 0, the hue 360 through the reduction modulo 6. The
  statement holds for all \<open>s\<close> and \<open>v\<close>, in particular for those in \<open>[0, 100]\<close>.
\<close>

theorem HSVAtoRGBA_hue_wrap:
  "HSVAtoRGBA \<lparr>hsva_h = 360, hsva_s = s, hsva_v = v, hsva_a = al\<rparr>
     = HSVAtoRGBA \<lparr>hsva_h = 0, hsva_s = s, hsva_v = v, hsva_a = al\<rparr>
   \<and> HSVAtoRGBA \<lparr>hsva_h = 0, hsva_s = s, hsva_v = v, hsva_a = al\<rparr> \<noteq> None
   \<and> sector 0 = 0 \<and> sector 360 = 0"
  by (simp add: HSVAtoRGBA_def Let_def fl_0 fl_6 jsmod_0 jsmod_6_2 jsmod_6_6
      Math_floor_def js_index_def sector_0 sector_360)

section \<open>The forms of the colour strings\<close>

text \<open>
  Claim C7. \<open>RGBAToStr\<close> and \<open>HSLAToStr\<close> emit the three-component forms \<^verbatim>\<open>rgb(r, g, b)\<close> and
  \<^verbatim>\<open>hsl(h, s%, l%)\<close> exactly when alpha is suppressed (the alpha setting is disabled, or the
  alpha is 1 and the force-alpha setting is off), and in every other case the four-component
  forms \<^verbatim>\<open>rgba(r, g, b, a)\<close> and \<^verbatim>\<open>hsla(h, s%, l%, a)\<close>, which include the alpha. This
  holds for every conversion \<open>str\<close> of Numbers to strings.
\<close>

theorem alpha_forms:
  "RGBAToStr str st c =
     (if alpha_suppressed st (rgba_a c)
      then ''rgb('' @ str (Num (rgba_r c)) @ '', '' @ str (Num (rgba_g c)) @ '', ''
             @ str (Num (rgba_b c)) @ '')''
      else ''rgba('' @ str (Num (rgba_r c)) @ '', '' @ str (Num (rgba_g c)) @ '', ''
             @ str (Num (rgba_b c)) @ '', '' @ str (Num (rgba_a c)) @ '')'')
   \<and> HSLAToStr str st d =
     (if alpha_suppressed st (hsla_a d)
      then ''hsl('' @ str (Num (hsla_h d)) @ '', '' @ str (hsla_s d) @ ''%, ''
             @ str (Num (hsla_l d)) @ ''%)''
      else ''hsla('' @ str (Num (hsla_h d)) @ '', '' @ str (hsla_s d) @ ''%, ''
             @ str (Num (hsla_l d)) @ ''%, '' @ str (Num (hsla_a d)) @ '')'')
   \<and> (take 4 (RGBAToStr str st c) = ''rgb('') = alpha_suppressed st (rgba_a c)
   \<and> (take 5 (RGBAToStr str st c) = ''rgba('') = (\<not> alpha_suppressed st (rgba_a c))
   \<and> (take 4 (HSLAToStr str st d) = ''hsl('') = alpha_suppressed st (hsla_a d)
   \<and> (take 5 (HSLAToStr str st d) = ''hsla('') = (\<not> alpha_suppressed st (hsla_a d))"
  by (simp add: RGBAToStr_def HSLAToStr_def alpha_suppressed_def)

theorem alpha_forms_witness:
  "RGBAToStr (\<lambda>n. ''7'') \<lparr>settings_alpha = True, settings_forceAlpha = False\<rparr>
      \<lparr>rgba_r = 255, rgba_g = 0, rgba_b = 0, rgba_a = 1 / 2\<rparr> = ''rgba(7, 7, 7, 7)''
   \<and> HSLAToStr (\<lambda>n. ''7'') \<lparr>settings_alpha = True, settings_forceAlpha = False\<rparr>
      \<lparr>hsla_h = 0, hsla_s = Num 0, hsla_l = 0, hsla_a = 1\<rparr> = ''hsl(7, 7%, 7%)''"
  using alpha_forms [of "\<lambda>n. ''7''" "\<lparr>settings_alpha = True, settings_forceAlpha = False\<rparr>"
      "\<lparr>rgba_r = 255, rgba_g = 0, rgba_b = 0, rgba_a = 1 / 2\<rparr>"
      "\<lparr>hsla_h = 0, hsla_s = Num 0, hsla_l = 0, hsla_a = 1\<rparr>"]
  by (simp add: alpha_suppressed_def)

section \<open>Reading a CSS variable\<close>

lemma trim_split:
  "\<exists>p q. v = p @ trim v @ q \<and> list_all js_whitespace p \<and> list_all js_whitespace q"
proof -
  define p where "p = takeWhile js_whitespace v"
  define w where "w = dropWhile js_whitespace v"
  define q where "q = rev (takeWhile js_whitespace (rev w))"
  have "v = p @ w" by (simp add: p_def w_def)
  moreover have "rev w = takeWhile js_whitespace (rev w) @ dropWhile js_whitespace (rev w)" by simp
  then have "w = rev (dropWhile js_whitespace (rev w)) @ q"
    unfolding q_def by (metis rev_append rev_rev_ident)
  moreover have "list_all js_whitespace p" unfolding p_def list_all_iff by (metis set_takeWhileD)
  moreover have "list_all js_whitespace q" unfolding q_def list_all_iff by (metis set_rev set_takeWhileD)
  ultimately show ?thesis unfolding trim_def w_def by metis
qed

lemma trim_ends:
  "trim v = [] \<or> (\<not> js_whitespace (hd (trim v)) \<and> \<not> js_whitespace (last (trim v)))"
proof (cases "trim v = []")
  case True then show ?thesis by simp
next
  case False
  define w where "w = dropWhile js_whitespace v"
  define u where "u = dropWhile js_whitespace (rev w)"
  have t: "trim v = rev u" by (simp add: trim_def u_def w_def)
  with False have u: "u \<noteq> []" by simp
  then have hu: "\<not> js_whitespace (hd u)" unfolding u_def by (rule hd_dropWhile)
  then have l: "\<not> js_whitespace (last (trim v))" using u by (simp add: t last_rev)
  have "\<exists>xs. rev w = xs @ u" unfolding u_def by (metis takeWhile_dropWhile_id)
  then obtain xs where "rev w = xs @ u" ..
  then have w: "w = rev u @ rev xs" by (metis rev_append rev_rev_ident)
  have wne: "w \<noteq> []" using w u by simp
  then have "\<not> js_whitespace (hd w)" unfolding w_def by (rule hd_dropWhile)
  moreover have "hd w = hd (rev u)" using w u by simp
  ultimately show ?thesis using l t by simp
qed

text \<open>
  Claim C8. Without the computed-style capability \<open>getCSSVar\<close> returns \<^verbatim>\<open>null\<close> and does not
  raise. With it, \<open>getCSSVar\<close> returns the property name itself when the computed value is
  unavailable or is empty after trimming, and the trimmed computed value otherwise. The
  trimmed value is the computed value without the white space at its two ends: it is empty, or
  neither starts nor ends with white space.
\<close>

theorem getCSSVar_result:
  "getCSSVar None name = None
   \<and> getCSSVar (Some getPropertyValue) name =
       Some (case getPropertyValue name of
               None \<Rightarrow> name
             | Some v \<Rightarrow> (if trim v = [] then name else trim v))
   \<and> (\<exists>p q. v = p @ trim v @ q \<and> list_all js_whitespace p \<and> list_all js_whitespace q)
   \<and> (trim v = [] \<or> (\<not> js_whitespace (hd (trim v)) \<and> \<not> js_whitespace (last (trim v))))"
  using trim_split [of v] trim_ends [of v] by (simp add: getCSSVar_def)

theorem getCSSVar_result_witness:
  "getCSSVar None ''--brand'' = None
   \<and> getCSSVar (Some (\<lambda>n. if n = ''--brand'' then Some '' #336699 '' else Some [])) ''--brand''
       = Some ''#336699''
   \<and> getCSSVar (Some (\<lambda>n. if n = ''--brand'' then Some '' #336699 '' else Some [])) ''--none''
       = Some ''--none''"
  using getCSSVar_result [of "''--brand''"
      "\<lambda>n. if n = ''--brand'' then Some '' #336699 '' else Some []" "'' #336699 ''"]
    getCSSVar_result [of "''--none''"
      "\<lambda>n. if n = ''--brand'' then Some '' #336699 '' else Some []" "[]"]
  by (simp add: trim_def js_whitespace_def)

section \<open>HSVA to HSLA: the guarded division\<close>

lemma fl_half: "fl (1 / 2) = 1 / 2"
  using fl_grid53 [of 1 "- 1"] by (simp add: power_int_def)

lemma fl_1: "fl 1 = 1"
  using fl_int [of 1] by simp

lemma fl_one_minus_pos:
  assumes "fl l = l" "l < 1"
  shows "0 < fl (1 - l)"
proof (cases "l \<le> 1 / 2")
  case True
  then have "fl (1 / 2) \<le> fl (1 - l)" by (intro fl_mono) simp
  then show ?thesis by (simp add: fl_half)
next
  case False
  then have l: "1 / 2 < l" by simp
  then have l0: "l \<noteq> 0" by simp
  have "ilog2 l = - 1" using l assms(2) by (intro ilog2_unique) (simp_all add: power_int_def)
  then have u: "ulp_exp l = - 53" using l by (simp add: ulp_exp_def)
  define n where "n = rhe (l / 2 powi (- 53))"
  have ln: "l = of_int n * 2 powi (- 53)" using assms(1) l0 by (simp add: fl_def u n_def)
  have p: "(2::rat) powi (- 53) = 1 / 2 ^ 53" by (simp add: power_int_def field_simps)
  have "of_int n * (1 / 2 ^ 53) < (1::rat)" using assms(2) ln p by simp
  then have "(of_int n :: rat) < of_int (2 ^ 53)" by (simp add: field_simps)
  then have "n < 2 ^ 53" by (simp only: of_int_less_iff)
  then have "1 \<le> 2 ^ 53 - n" by simp
  then have "(of_int 1 :: rat) \<le> of_int (2 ^ 53 - n)" by (simp only: of_int_le_iff)
  then have "1 * (2::rat) powi (- 53) \<le> of_int (2 ^ 53 - n) * 2 powi (- 53)"
    by (intro mult_right_mono) simp_all
  also have "\<dots> = 1 - l" by (simp add: ln p left_diff_distrib)
  finally have "fl (of_int 1 * 2 powi (- 53)) \<le> fl (1 - l)" by (intro fl_mono) simp
  moreover have "fl (of_int 1 * 2 powi (- 53)) = of_int 1 * 2 powi (- 53)"
    by (rule fl_grid53) simp_all
  ultimately show ?thesis using powi_pos [of "- 53"] by simp
qed

lemma lightness_of_double: "fl (lightness_of x) = lightness_of x"
  by (simp add: lightness_of_def fl_idem)

text \<open>
  Claim C5. In \<open>HSVAtoHSLA\<close> the lightness is the (rounded) product \<open>v * (1 - s / 2)\<close> of the
  normalised value and saturation. The saturation \<open>(v - l) / min l (1 - l)\<close> is computed only
  when the lightness is strictly between 0 and 1, and there its divisor is positive; otherwise
  the saturation is 0. For every input the saturation is a finite Number, never \<^verbatim>\<open>NaN\<close> or
  infinite. In particular HSVA \<open>{h: 0, s: 50, v: 0, a: 1}\<close> yields the saturation 0.
\<close>

theorem HSVAtoHSLA_guard:
  "hsla_l (HSVAtoHSLA x) = Math_round (fl (lightness_of x * 100))
   \<and> (\<exists>q. hsla_s (HSVAtoHSLA x) = Num q)
   \<and> (if 0 < lightness_of x \<and> lightness_of x < 1
       then 0 < min (lightness_of x) (fl (1 - lightness_of x))
          \<and> hsla_s (HSVAtoHSLA x) =
              Num (Math_round (fl (fl (fl (fl (hsva_v x / 100) - lightness_of x)
                     / min (lightness_of x) (fl (1 - lightness_of x))) * 100)))
       else hsla_s (HSVAtoHSLA x) = Num 0)
   \<and> hsla_s (HSVAtoHSLA \<lparr>hsva_h = 0, hsva_s = 50, hsva_v = 0, hsva_a = 1\<rparr>) = Num 0"
proof -
  define l where "l = lightness_of x"
  have d: "0 < min l (fl (1 - l))" if "0 < l" "l < 1"
    using that fl_one_minus_pos [of l] lightness_of_double [of x] unfolding l_def by simp
  have L: "hsla_l (HSVAtoHSLA x) = Math_round (fl (l * 100))"
    by (simp add: HSVAtoHSLA_def Let_def lightness_of_def l_def)
  have S1: "hsla_s (HSVAtoHSLA x) =
      Num (Math_round (fl (fl (fl (fl (hsva_v x / 100) - l) / min l (fl (1 - l))) * 100)))"
    if "0 < l" "l < 1"
  proof -
    have "min l (fl (1 - l)) \<noteq> 0" using d [OF that] by linarith
    then have ne: "(min l (fl (1 - l)) = 0) = False" by (rule eq_False [THEN iffD2])
    show ?thesis
      using that
      by (simp add: HSVAtoHSLA_def Let_def lightness_of_def [symmetric] l_def [symmetric]
          js_div_def js_times_def Math_round_num_def or_zero_def ne)
  qed
  have S0: "hsla_s (HSVAtoHSLA x) = Num 0" if "\<not> (0 < l \<and> l < 1)"
  proof -
    have g: "(0 < l \<and> l < 1) = False" using that by simp
    show ?thesis
      by (simp add: HSVAtoHSLA_def Let_def lightness_of_def [symmetric] l_def [symmetric]
          or_zero_def g)
  qed
  have E: "\<exists>q. hsla_s (HSVAtoHSLA x) = Num q" using S0 S1 by (cases "0 < l \<and> l < 1") auto
  have X: "hsla_s (HSVAtoHSLA \<lparr>hsva_h = 0, hsva_s = 50, hsva_v = 0, hsva_a = 1\<rparr>) = Num 0"
    by (simp add: HSVAtoHSLA_def Let_def fl_0 or_zero_def)
  show ?thesis using L E S0 S1 d X unfolding l_def by auto
qed

theorem HSVAtoHSLA_guard_witness:
  "hsla_s (HSVAtoHSLA \<lparr>hsva_h = 0, hsva_s = 50, hsva_v = 70, hsva_a = 1\<rparr>) = Num 37
   \<and> hsla_s (HSVAtoHSLA \<lparr>hsva_h = 0, hsva_s = 50, hsva_v = 0, hsva_a = 1\<rparr>) = Num 0"
proof -
  have "hsla_s (HSVAtoHSLA \<lparr>hsva_h = 0, hsva_s = 50, hsva_v = 70, hsva_a = 1\<rparr>) = Num 37"
    by code_simp
  then show ?thesis
    using HSVAtoHSLA_guard [of "\<lparr>hsva_h = 0, hsva_s = 50, hsva_v = 70, hsva_a = 1\<rparr>"] by simp
qed

section \<open>HSVA to RGBA: the results are channels\<close>

lemma fl_255: "fl 255 = 255"
  using fl_int [of 255] by simp

lemma fl_above_1: "fl (1 + 1 / 2 ^ 54) = 1"
  by code_simp

lemma fl_unit: "0 \<le> x \<Longrightarrow> x \<le> 1 \<Longrightarrow> 0 \<le> fl x \<and> fl x \<le> 1"
  using fl_mono [of 0 x] fl_mono [of x 1] by (simp add: fl_0 fl_1)

lemma channel_range:
  assumes "0 \<le> y" "y \<le> 1"
  shows "\<exists>k. Math_round (fl (y * 255)) = of_int k \<and> 0 \<le> k \<and> k \<le> 255"
proof -
  have "fl 0 \<le> fl (y * 255)" "fl (y * 255) \<le> fl 255"
    using assms by (auto intro!: fl_mono)
  then have "0 \<le> fl (y * 255)" "fl (y * 255) \<le> 255" by (simp_all add: fl_0 fl_255)
  then have "0 \<le> \<lfloor>fl (y * 255) + 1 / 2\<rfloor>" "\<lfloor>fl (y * 255) + 1 / 2\<rfloor> \<le> 255"
    by (simp_all add: le_floor_iff floor_le_iff)
  then show ?thesis unfolding Math_round_def by blast
qed

lemma jsmod_2_range: "0 \<le> x \<Longrightarrow> 0 \<le> jsmod x 2 \<and> jsmod x 2 < 2"
proof -
  assume "0 \<le> x"
  then have "jsmod x 2 = x - 2 * of_int \<lfloor>x / 2\<rfloor>" by (simp add: jsmod_def)
  moreover have "of_int \<lfloor>x / 2\<rfloor> \<le> x / 2" "x / 2 < of_int \<lfloor>x / 2\<rfloor> + 1" by linarith+
  ultimately show ?thesis by linarith
qed

lemma jsmod_int_6: "0 \<le> n \<Longrightarrow> jsmod (of_int n) 6 = of_int (n mod 6)"
proof -
  assume n: "0 \<le> n"
  have f: "\<lfloor>(of_int n :: rat) / 6\<rfloor> = n div 6"
    using floor_divide_of_int_eq [of n 6, where ?'a = rat] by simp
  have "n - 6 * (n div 6) = n mod 6" by (simp add: minus_mult_div_eq_mod)
  then have "(of_int (n - 6 * (n div 6)) :: rat) = of_int (n mod 6)" by (simp only:)
  then have "(of_int n :: rat) - 6 * of_int (n div 6) = of_int (n mod 6)"
    by simp
  then show ?thesis using n by (simp add: jsmod_def f)
qed

lemma sector_cases:
  assumes "0 \<le> h" "h \<le> 360"
  shows "sector h \<in> {0, 1, 2, 3, 4, 5}"
proof -
  have "fl 0 \<le> fl (h / 60)" "fl (h / 60) \<le> fl 6" using assms by (auto intro!: fl_mono)
  then have b: "0 \<le> fl (h / 60)" "fl (h / 60) \<le> 6" by (simp_all add: fl_0 fl_6)
  define n where "n = \<lfloor>fl (h / 60)\<rfloor>"
  have n: "0 \<le> n" "n \<le> 6" using b by (simp_all add: n_def le_floor_iff floor_le_iff)
  have s: "sector h = of_int (n mod 6)"
    using n(1) by (simp add: sector_def Math_floor_def n_def [symmetric] jsmod_int_6)
  have "0 \<le> n mod 6" "n mod 6 < 6" by simp_all
  then consider "n mod 6 = 0" | "n mod 6 = 1" | "n mod 6 = 2" | "n mod 6 = 3" | "n mod 6 = 4"
    | "n mod 6 = 5" by linarith
  then show ?thesis by cases (simp_all add: s)
qed

lemma js_index_6:
  assumes "i \<in> {0, 1, 2, 3, 4, 5}"
  shows "js_index [x0, x1, x2, x3, x4, x5] i \<in> {Some x0, Some x1, Some x2, Some x3, Some x4, Some x5}
         \<and> js_index [x0, x1, x2, x3, x4, x5] i \<noteq> None"
  using assms by (auto simp: js_index_def)


lemma HSVAtoRGBA_alt:
  "HSVAtoRGBA c =
     (case (js_index [hsv_chroma c, hsv_x c, hsv_m c, hsv_m c, hsv_x c, hsv_chroma c] (sector (hsva_h c)),
            js_index [hsv_x c, hsv_chroma c, hsv_chroma c, hsv_x c, hsv_m c, hsv_m c] (sector (hsva_h c)),
            js_index [hsv_m c, hsv_m c, hsv_x c, hsv_chroma c, hsv_chroma c, hsv_x c] (sector (hsva_h c))) of
        (Some red, Some green, Some blue) \<Rightarrow>
          Some \<lparr>rgba_r = Math_round (fl (red * 255)),
                rgba_g = Math_round (fl (green * 255)),
                rgba_b = Math_round (fl (blue * 255)),
                rgba_a = hsva_a c\<rparr>
      | _ \<Rightarrow> None)"
  by (simp add: HSVAtoRGBA_def Let_def hsv_m_def hsv_chroma_def hsv_x_def sector_def)

lemma hsv_parts_unit:
  assumes "0 \<le> hsva_h c" "0 \<le> hsva_s c" "hsva_s c \<le> 100" "0 \<le> hsva_v c" "hsva_v c \<le> 100"
  shows "0 \<le> hsv_m c \<and> hsv_m c \<le> 1"
    and "0 \<le> hsv_chroma c \<and> hsv_chroma c \<le> 1"
    and "0 \<le> hsv_x c \<and> hsv_x c \<le> 1"
proof -
  define sat where "sat = fl (hsva_s c / 100)"
  define val where "val = fl (hsva_v c / 100)"
  define c0 where "c0 = fl (sat * val)"
  define w where "w = fl (1 - \<bar>fl (jsmod (fl (hsva_h c / 60)) 2 - 1)\<bar>)"
  define x0 where "x0 = fl (c0 * w)"
  define m where "m = fl (val - c0)"
  have sat: "0 \<le> sat" "sat \<le> 1" using assms fl_unit [of "hsva_s c / 100"] by (simp_all add: sat_def)
  have val: "0 \<le> val" "val \<le> 1" using assms fl_unit [of "hsva_v c / 100"] by (simp_all add: val_def)
  have vald: "fl val = val" by (simp add: val_def fl_idem)
  have "sat * val \<le> 1 * val" using sat val by (intro mult_right_mono) simp_all
  then have "fl (sat * val) \<le> fl val" by (intro fl_mono) simp
  moreover have "0 \<le> fl (sat * val)" using sat val by (intro fl_nonneg) simp
  ultimately have c0: "0 \<le> c0" "c0 \<le> val" by (simp_all add: c0_def vald)
  have c0d: "fl c0 = c0" by (simp add: c0_def fl_idem)
  have hb: "0 \<le> fl (hsva_h c / 60)" using assms(1) by (intro fl_nonneg) simp
  note t = jsmod_2_range [OF hb]
  have "fl (- 1) \<le> fl (jsmod (fl (hsva_h c / 60)) 2 - 1)" "fl (jsmod (fl (hsva_h c / 60)) 2 - 1) \<le> fl 1"
    using t by (auto intro!: fl_mono)
  then have "\<bar>fl (jsmod (fl (hsva_h c / 60)) 2 - 1)\<bar> \<le> 1"
    by (simp add: fl_uminus fl_1 abs_le_iff)
  then have w: "0 \<le> w" "w \<le> 1"
    using fl_unit [of "1 - \<bar>fl (jsmod (fl (hsva_h c / 60)) 2 - 1)\<bar>"] by (simp_all add: w_def)
  have "c0 * w \<le> c0 * 1" using c0 w by (intro mult_left_mono) simp_all
  then have "fl (c0 * w) \<le> fl c0" by (intro fl_mono) simp
  moreover have "0 \<le> fl (c0 * w)" using c0 w by (intro fl_nonneg) simp
  ultimately have x0: "0 \<le> x0" "x0 \<le> c0" by (simp_all add: x0_def c0d)
  have m0: "0 \<le> m" unfolding m_def using c0 by (intro fl_nonneg) simp
  have "fl (val - c0) \<le> fl val" using c0 by (intro fl_mono) simp
  then have m1: "m \<le> 1" using val by (simp add: m_def vald)
  have "\<bar>val - c0\<bar> \<le> 1" using c0 val by simp
  then have me: "\<bar>m - (val - c0)\<bar> \<le> 1 / 2 ^ 54" unfolding m_def by (rule fl_error_unit)
  have "c0 + m \<le> 1 + 1 / 2 ^ 54" using me val by linarith
  then have "fl (c0 + m) \<le> fl (1 + 1 / 2 ^ 54)" by (rule fl_mono)
  then have c1: "fl (c0 + m) \<le> 1" by (simp only: fl_above_1)
  have c1n: "0 \<le> fl (c0 + m)" using c0 m0 by (intro fl_nonneg) simp
  have "x0 + m \<le> 1 + 1 / 2 ^ 54" using me val x0 by linarith
  then have "fl (x0 + m) \<le> fl (1 + 1 / 2 ^ 54)" by (rule fl_mono)
  then have x1: "fl (x0 + m) \<le> 1" by (simp only: fl_above_1)
  have x1n: "0 \<le> fl (x0 + m)" using x0 m0 by (intro fl_nonneg) simp
  have M: "hsv_m c = m" by (simp add: hsv_m_def m_def c0_def sat_def val_def)
  have C: "hsv_chroma c = fl (c0 + m)" by (simp add: hsv_chroma_def M c0_def sat_def val_def)
  have X: "hsv_x c = fl (x0 + m)" by (simp add: hsv_x_def M x0_def w_def c0_def sat_def val_def)
  show "0 \<le> hsv_m c \<and> hsv_m c \<le> 1" using m0 m1 M by simp
  show "0 \<le> hsv_chroma c \<and> hsv_chroma c \<le> 1" using c1 c1n C by simp
  show "0 \<le> hsv_x c \<and> hsv_x c \<le> 1" using x1 x1n X by simp
qed

lemma HSVAtoRGBA_channels:
  assumes "0 \<le> h" "h \<le> 360" "0 \<le> s" "s \<le> 100" "0 \<le> v" "v \<le> 100"
  shows "sector h \<in> {0, 1, 2, 3, 4, 5}
    \<and> (\<exists>r g b. HSVAtoRGBA \<lparr>hsva_h = h, hsva_s = s, hsva_v = v, hsva_a = al\<rparr>
           = Some \<lparr>rgba_r = of_int r, rgba_g = of_int g, rgba_b = of_int b, rgba_a = al\<rparr>
         \<and> 0 \<le> r \<and> r \<le> 255 \<and> 0 \<le> g \<and> g \<le> 255 \<and> 0 \<le> b \<and> b \<le> 255)"
proof -
  define c where "c = \<lparr>hsva_h = h, hsva_s = s, hsva_v = v, hsva_a = al\<rparr>"
  have sel: "hsva_h c = h" "hsva_s c = s" "hsva_v c = v" "hsva_a c = al" by (simp_all add: c_def)
  note u = hsv_parts_unit [of c, unfolded sel, OF assms(1) assms(3) assms(4) assms(5) assms(6)]
  note sc = sector_cases [OF assms(1) assms(2)]
  have ch: "\<exists>k. Math_round (fl (y * 255)) = of_int k \<and> 0 \<le> k \<and> k \<le> 255"
    if "y \<in> {hsv_chroma c, hsv_x c, hsv_m c}" for y
    using that u channel_range [of y] by auto
  obtain red where red: "js_index [hsv_chroma c, hsv_x c, hsv_m c, hsv_m c, hsv_x c, hsv_chroma c] (sector h) = Some red"
      "red \<in> {hsv_chroma c, hsv_x c, hsv_m c}"
    using js_index_6 [OF sc, of "hsv_chroma c" "hsv_x c" "hsv_m c" "hsv_m c" "hsv_x c" "hsv_chroma c"] by auto
  obtain green where green: "js_index [hsv_x c, hsv_chroma c, hsv_chroma c, hsv_x c, hsv_m c, hsv_m c] (sector h) = Some green"
      "green \<in> {hsv_chroma c, hsv_x c, hsv_m c}"
    using js_index_6 [OF sc, of "hsv_x c" "hsv_chroma c" "hsv_chroma c" "hsv_x c" "hsv_m c" "hsv_m c"] by auto
  obtain blue where blue: "js_index [hsv_m c, hsv_m c, hsv_x c, hsv_chroma c, hsv_chroma c, hsv_x c] (sector h) = Some blue"
      "blue \<in> {hsv_chroma c, hsv_x c, hsv_m c}"
    using js_index_6 [OF sc, of "hsv_m c" "hsv_m c" "hsv_x c" "hsv_chroma c" "hsv_chroma c" "hsv_x c"] by auto
  obtain r where r: "Math_round (fl (red * 255)) = of_int r" "0 \<le> r" "r \<le> 255"
    using ch [OF red(2)] by blast
  obtain g where g: "Math_round (fl (green * 255)) = of_int g" "0 \<le> g" "g \<le> 255"
    using ch [OF green(2)] by blast
  obtain b where b: "Math_round (fl (blue * 255)) = of_int b" "0 \<le> b" "b \<le> 255"
    using ch [OF blue(2)] by blast
  have "HSVAtoRGBA c = Some \<lparr>rgba_r = of_int r, rgba_g = of_int g, rgba_b = of_int b, rgba_a = al\<rparr>"
    by (simp add: HSVAtoRGBA_alt sel red(1) green(1) blue(1) r(1) g(1) b(1))
  then show ?thesis using sc r g b unfolding c_def by blast
qed

text \<open>
  Claim C10. For every HSVA input with \<open>h\<close> in \<open>[0, 360]\<close> and \<open>s\<close>, \<open>v\<close> in \<open>[0, 100]\<close>, the
  sector index \<^verbatim>\<open>Math.floor(h / 60) % 6\<close> is one of 0, ..., 5, so the three table lookups are in
  bounds, and \<open>HSVAtoRGBA\<close> returns integers \<open>r\<close>, \<open>g\<close>, \<open>b\<close> in \<open>[0, 255]\<close> and the alpha
  unchanged.
\<close>

theorem HSVAtoRGBA_in_range:
  assumes "0 \<le> h" "h \<le> 360" "0 \<le> s" "s \<le> 100" "0 \<le> v" "v \<le> 100"
  shows "sector h \<in> {0, 1, 2, 3, 4, 5}
    \<and> (\<exists>r g b. HSVAtoRGBA \<lparr>hsva_h = h, hsva_s = s, hsva_v = v, hsva_a = al\<rparr>
           = Some \<lparr>rgba_r = of_int r, rgba_g = of_int g, rgba_b = of_int b, rgba_a = al\<rparr>
         \<and> 0 \<le> r \<and> r \<le> 255 \<and> 0 \<le> g \<and> g \<le> 255 \<and> 0 \<le> b \<and> b \<le> 255)"
  using assms by (rule HSVAtoRGBA_channels)

theorem HSVAtoRGBA_in_range_witness:
  "(0::rat) \<le> 218 \<and> (218::rat) \<le> 360 \<and> (0::rat) \<le> 100 \<and> (100::rat) \<le> 100
   \<and> sector 218 \<in> {0, 1, 2, 3, 4, 5}
   \<and> (\<exists>r g b. HSVAtoRGBA \<lparr>hsva_h = 218, hsva_s = 100, hsva_v = 100, hsva_a = 1\<rparr>
           = Some \<lparr>rgba_r = of_int r, rgba_g = of_int g, rgba_b = of_int b, rgba_a = 1\<rparr>
         \<and> 0 \<le> r \<and> r \<le> 255 \<and> 0 \<le> g \<and> g \<le> 255 \<and> 0 \<le> b \<and> b \<le> 255)"
proof -
  have h: "(0::rat) \<le> 218" "(218::rat) \<le> 360" "(0::rat) \<le> 100" "(100::rat) \<le> 100" by simp_all
  show ?thesis
    using h HSVAtoRGBA_in_range [OF h(1) h(2) h(3) h(4) h(3) h(4), of 1] by simp
qed

section \<open>RGBA to HSVA: agreement with the specification\<close>

lemma fl_numeral_facts:
  "fl 1 = 1" "fl (- 1) = - 1" "fl 3 = 3" "fl 5 = 5" "fl 300 = 300" "fl (- 60) = - 60"
  using fl_int [of 1] fl_int [of "- 1"] fl_int [of 3] fl_int [of 5] fl_int [of 300] fl_int [of "- 60"]
  by simp_all

lemma fl_sub_swap: "fl (y - x) = - fl (x - y)"
  using fl_uminus [of "x - y"] by simp

lemma wrap_degrees_tie: "wrap_degrees (- 1) = wrap_degrees 5"
  by (simp add: wrap_degrees_def fl_numeral_facts Math_floor_def)

lemma hue_tie:
  fixes red green blue :: rat
  defines "xmax \<equiv> max red (max green blue)"
  defines "chroma \<equiv> fl (xmax - min red (min green blue))"
  defines "hr \<equiv> fl (fl (green - blue) / chroma)"
  defines "hg \<equiv> fl (2 + fl (fl (blue - red) / chroma))"
  defines "hb \<equiv> fl (4 + fl (fl (red - green) / chroma))"
  shows "wrap_degrees (if chroma \<noteq> 0 \<and> xmax = blue then hb
           else if chroma \<noteq> 0 \<and> xmax = green then hg
           else if chroma \<noteq> 0 \<and> xmax = red then hr else 0)
       = wrap_degrees (if chroma = 0 then 0 else if xmax = red then hr
           else if xmax = green then hg else hb)"
proof -
  define xmin where "xmin = min red (min green blue)"
  have chroma: "chroma = fl (xmax - xmin)" by (simp add: chroma_def xmin_def)
  have some: "xmax = red \<or> xmax = green \<or> xmax = blue" by (auto simp: xmax_def max_def)
  consider (zero) "chroma = 0"
    | (rg) "chroma \<noteq> 0" "xmax = red" "xmax = green" "xmax \<noteq> blue"
    | (rb) "chroma \<noteq> 0" "xmax = red" "xmax = blue"
    | (gb) "chroma \<noteq> 0" "xmax \<noteq> red" "xmax = green" "xmax = blue"
    | (r) "chroma \<noteq> 0" "xmax = red" "xmax \<noteq> green" "xmax \<noteq> blue"
    | (g) "chroma \<noteq> 0" "xmax \<noteq> red" "xmax = green" "xmax \<noteq> blue"
    | (b) "chroma \<noteq> 0" "xmax \<noteq> red" "xmax \<noteq> green" "xmax = blue"
    using some by blast
  then show ?thesis
  proof cases
    case zero
    then show ?thesis by simp
  next
    case rg
    have "xmin = blue" using rg(2,3) by (auto simp: xmin_def xmax_def min_def max_def split: if_splits)
    then have "fl (green - blue) = chroma" "fl (blue - red) = - chroma"
      using rg(2,3) fl_sub_swap [of red blue] by (simp_all add: chroma)
    then have "hr = 1" "hg = 1" using rg(1) by (simp_all add: hr_def hg_def fl_numeral_facts)
    then show ?thesis using rg by simp
  next
    case rb
    have "xmax \<noteq> xmin" using rb(1) by (auto simp: chroma fl_0)
    then have "xmin = green"
      using rb(2,3) by (auto simp: xmin_def xmax_def min_def max_def split: if_splits)
    then have "fl (red - green) = chroma" "fl (green - blue) = - chroma"
      using rb(2,3) fl_sub_swap [of blue green] by (simp_all add: chroma)
    then have "hr = - 1" "hb = 5" using rb(1) by (simp_all add: hr_def hb_def fl_numeral_facts)
    then show ?thesis using rb by (simp add: wrap_degrees_tie)
  next
    case gb
    have "xmin = red" using gb by (auto simp: xmin_def xmax_def min_def max_def split: if_splits)
    then have "fl (blue - red) = chroma" "fl (red - green) = - chroma"
      using gb(3,4) fl_sub_swap [of green red] by (simp_all add: chroma)
    then have "hg = 3" "hb = 3" using gb(1) by (simp_all add: hg_def hb_def fl_numeral_facts)
    then show ?thesis using gb by simp
  next
    case r then show ?thesis by simp
  next
    case g then show ?thesis by simp
  next
    case b then show ?thesis by simp
  qed
qed

lemma RGBAtoHSVA_eq_spec: "RGBAtoHSVA c = RGBAtoHSVA_spec c"
proof -
  define red where "red = fl (rgba_r c / 255)"
  define green where "green = fl (rgba_g c / 255)"
  define blue where "blue = fl (rgba_b c / 255)"
  note t = hue_tie [of red green blue, unfolded wrap_degrees_def Let_def]
  show ?thesis
    unfolding RGBAtoHSVA_def RGBAtoHSVA_spec_def Let_def
      red_def [symmetric] green_def [symmetric] blue_def [symmetric]
    using t by (auto simp: fl_0)
qed

text \<open>
  Claim C2. \<open>RGBAtoHSVA\<close> computes what the specification describes: the hue piecewise by
  the maximal channel, scaled by 60, floored to integer degrees and wrapped by 360 when
  negative, 0 when the chroma is 0; the saturation chroma over maximum (0 when the maximum
  is 0) and the value as the maximum, both rounded to the nearest integer percent; the alpha
  unchanged. Where two channels are maximal the source keeps the last assignment and the
  specification's reading the first one; the two hues agree. In particular RGBA
  \<open>{0, 0, 0, 1}\<close> maps to HSVA \<open>{h: 0, s: 0, v: 0, a: 1}\<close> and RGBA \<open>{255, 255, 255, 1}\<close> to
  HSVA \<open>{h: 0, s: 0, v: 100, a: 1}\<close>.
\<close>

theorem RGBAtoHSVA_refines_spec:
  "RGBAtoHSVA c = RGBAtoHSVA_spec c
   \<and> RGBAtoHSVA \<lparr>rgba_r = 0, rgba_g = 0, rgba_b = 0, rgba_a = 1\<rparr>
       = \<lparr>hsva_h = 0, hsva_s = 0, hsva_v = 0, hsva_a = 1\<rparr>
   \<and> RGBAtoHSVA \<lparr>rgba_r = 255, rgba_g = 255, rgba_b = 255, rgba_a = 1\<rparr>
       = \<lparr>hsva_h = 0, hsva_s = 0, hsva_v = 100, hsva_a = 1\<rparr>"
proof -
  have "RGBAtoHSVA \<lparr>rgba_r = 0, rgba_g = 0, rgba_b = 0, rgba_a = 1\<rparr>
       = \<lparr>hsva_h = 0, hsva_s = 0, hsva_v = 0, hsva_a = 1\<rparr>"
    by code_simp
  moreover have "RGBAtoHSVA \<lparr>rgba_r = 255, rgba_g = 255, rgba_b = 255, rgba_a = 1\<rparr>
       = \<lparr>hsva_h = 0, hsva_s = 0, hsva_v = 100, hsva_a = 1\<rparr>"
    by code_simp
  ultimately show ?thesis using RGBAtoHSVA_eq_spec [of c] by simp
qed

section \<open>The hexadecimal string\<close>

lemma digits16_small: "n < 16 \<Longrightarrow> digits16 n = [hex_digit n]"
  by (subst digits16.simps) simp

lemma digits16_byte: "16 \<le> n \<Longrightarrow> n < 256 \<Longrightarrow> digits16 n = [hex_digit (n div 16), hex_digit (n mod 16)]"
proof -
  assume n: "16 \<le> n" "n < 256"
  then have "n div 16 < 16" by simp
  then have "digits16 (n div 16) = [hex_digit (n div 16)]" by (rule digits16_small)
  then show ?thesis using n by (subst digits16.simps) simp
qed

lemma hex_digit_0: "hex_digit 0 = CHR ''0''"
  by (simp add: hex_digit_def)

lemma pad16_byte:
  assumes "0 \<le> n" "n \<le> 255"
  shows "pad16 (of_int n) (int_toString16 n) = hex2 n"
proof (cases "n < 16")
  case True
  then have "nat n < 16" using assms by simp
  then have "digits16 (nat n) = [hex_digit (nat n)]" by (rule digits16_small)
  moreover have "(of_int n :: rat) < 16" using True by (simp add: of_int_less_numeral_iff [symmetric] del: of_int_less_numeral_iff)
  ultimately show ?thesis using True assms \<open>nat n < 16\<close>
    by (simp add: pad16_def int_toString16_def hex2_def hex_digit_0)
next
  case False
  then have n: "16 \<le> nat n" "nat n < 256" using assms by simp_all
  have "\<not> (of_int n :: rat) < 16" using False by simp
  then show ?thesis using assms digits16_byte [OF n]
    by (simp add: pad16_def int_toString16_def hex2_def)
qed

lemma Number_toString16_int: "Number_toString16 (of_int n) = Some (int_toString16 n)"
  by (simp add: Number_toString16_def)

lemma ToInt32_byte:
  assumes "0 \<le> x" "x \<le> 255"
  shows "ToInt32 x = \<lfloor>x\<rfloor>" "0 \<le> \<lfloor>x\<rfloor>" "\<lfloor>x\<rfloor> \<le> 255"
proof -
  show f: "0 \<le> \<lfloor>x\<rfloor>" "\<lfloor>x\<rfloor> \<le> 255" using assms by (simp_all add: le_floor_iff floor_le_iff)
  then have "\<lfloor>x\<rfloor> mod 2 ^ 32 = \<lfloor>x\<rfloor>" by simp
  then show "ToInt32 x = \<lfloor>x\<rfloor>" using assms(1) f by (simp add: ToInt32_def Let_def)
qed

lemma alpha_byte_range:
  assumes "0 \<le> a" "a \<le> 1"
  shows "0 \<le> fl (a * 255)" "fl (a * 255) \<le> 255"
proof -
  have "fl 0 \<le> fl (a * 255)" "fl (a * 255) \<le> fl 255" using assms by (auto intro!: fl_mono)
  then show "0 \<le> fl (a * 255)" "fl (a * 255) \<le> 255" by (simp_all add: fl_0 fl_255)
qed

text \<open>
  Claim C6. For integer channels in \<open>[0, 255]\<close> and an alpha in \<open>[0, 1]\<close>, \<open>RGBAToHex\<close>
  renders each of \<open>r\<close>, \<open>g\<close>, \<open>b\<close> as two lowercase hexadecimal digits, padded with a zero, and
  appends the alpha byte, the product \<open>a * 255\<close> (rounded to a Number) cut down to an integer by
  the floor, as two such digits, if and only if the alpha setting is enabled and the alpha is
  below 1 or the force-alpha setting is on; otherwise the string has six digits. In
  particular RGBA \<open>{255, 0, 0, 1}\<close> gives \<^verbatim>\<open>#ff0000\<close> with the alpha setting disabled and
  \<^verbatim>\<open>#ff0000ff\<close> with forced alpha.
\<close>

theorem RGBAToHex_format:
  assumes "0 \<le> r" "r \<le> 255" "0 \<le> g" "g \<le> 255" "0 \<le> b" "b \<le> 255" "0 \<le> a" "a \<le> 1"
  shows "RGBAToHex st \<lparr>rgba_r = of_int r, rgba_g = of_int g, rgba_b = of_int b, rgba_a = a\<rparr>
      = Some (''#'' @ hex2 r @ hex2 g @ hex2 b
          @ (if settings_alpha st \<and> (a < 1 \<or> settings_forceAlpha st)
             then hex2 \<lfloor>fl (a * 255)\<rfloor> else []))
    \<and> (length (the (RGBAToHex st \<lparr>rgba_r = of_int r, rgba_g = of_int g, rgba_b = of_int b, rgba_a = a\<rparr>))
         = (if settings_alpha st \<and> (a < 1 \<or> settings_forceAlpha st) then 9 else 7))"
proof -
  note ab = alpha_byte_range [OF assms(7) assms(8)]
  note ti = ToInt32_byte [OF ab]
  have A: "pad16 (of_int (ToInt32 (fl (a * 255)))) (int_toString16 (ToInt32 (fl (a * 255))))
      = hex2 \<lfloor>fl (a * 255)\<rfloor>"
    using pad16_byte [OF ti(2) ti(3)] by (simp only: ti(1))
  have "RGBAToHex st \<lparr>rgba_r = of_int r, rgba_g = of_int g, rgba_b = of_int b, rgba_a = a\<rparr>
      = Some (''#'' @ hex2 r @ hex2 g @ hex2 b
          @ (if settings_alpha st \<and> (a < 1 \<or> settings_forceAlpha st)
             then hex2 \<lfloor>fl (a * 255)\<rfloor> else []))"
    by (auto simp: RGBAToHex_def Number_toString16_int Let_def A
        pad16_byte [OF assms(1) assms(2)] pad16_byte [OF assms(3) assms(4)]
        pad16_byte [OF assms(5) assms(6)])
  then show ?thesis by (simp add: hex2_def)
qed


theorem RGBAToHex_format_witness:
  "RGBAToHex \<lparr>settings_alpha = False, settings_forceAlpha = False\<rparr>
      \<lparr>rgba_r = 255, rgba_g = 0, rgba_b = 0, rgba_a = 1\<rparr> = Some ''#ff0000''
   \<and> RGBAToHex \<lparr>settings_alpha = True, settings_forceAlpha = True\<rparr>
      \<lparr>rgba_r = 255, rgba_g = 0, rgba_b = 0, rgba_a = 1\<rparr> = Some ''#ff0000ff''
   \<and> RGBAToHex \<lparr>settings_alpha = True, settings_forceAlpha = False\<rparr>
      \<lparr>rgba_r = 255, rgba_g = 0, rgba_b = 0, rgba_a = 1\<rparr> = Some ''#ff0000''
   \<and> RGBAToHex \<lparr>settings_alpha = True, settings_forceAlpha = False\<rparr>
      \<lparr>rgba_r = 255, rgba_g = 10, rgba_b = 0, rgba_a = 1 / 2\<rparr> = Some ''#ff0a007f''"
proof -
  have f: "fl 255 = 255" "\<lfloor>fl (255 / 2)\<rfloor> = 127"
    by (simp add: fl_255, code_simp)
  have h: "(0::int) \<le> 255" "(255::int) \<le> 255" "(0::int) \<le> 0" "(0::int) \<le> 255"
    "(0::int) \<le> 10" "(10::int) \<le> 255" "(0::rat) \<le> 1" "(1::rat) \<le> 1"
    "(0::rat) \<le> 1 / 2" "(1 / 2::rat) \<le> 1" by simp_all
  show ?thesis
    using RGBAToHex_format [OF h(1) h(2) h(3) h(4) h(3) h(4) h(7) h(8),
        of "\<lparr>settings_alpha = False, settings_forceAlpha = False\<rparr>"]
      RGBAToHex_format [OF h(1) h(2) h(3) h(4) h(3) h(4) h(7) h(8),
        of "\<lparr>settings_alpha = True, settings_forceAlpha = True\<rparr>"]
      RGBAToHex_format [OF h(1) h(2) h(3) h(4) h(3) h(4) h(7) h(8),
        of "\<lparr>settings_alpha = True, settings_forceAlpha = False\<rparr>"]
      RGBAToHex_format [OF h(1) h(2) h(5) h(6) h(3) h(4) h(9) h(10),
        of "\<lparr>settings_alpha = True, settings_forceAlpha = False\<rparr>"]
    by (simp add: hex2_def hex_digit_def f)
qed

section \<open>Recognising a CSS variable\<close>

lemma first_some_unique:
  "(\<And>x. x \<in> set xs \<Longrightarrow> x \<noteq> a \<Longrightarrow> f x = None) \<Longrightarrow>
   first_some f xs = (if a \<in> set xs then f a else None)"
proof (induction xs)
  case Nil
  then show ?case by simp
next
  case (Cons x xs)
  show ?case
  proof (cases "x = a")
    case True
    then show ?thesis using Cons by (cases "f a") (auto split: option.splits)
  next
    case False
    then have "f x = None" using Cons.prems by simp
    then show ?thesis using Cons False by simp
  qed
qed

lemma canonicalize_letter:
  "canonicalize c = canonicalize CHR ''v'' \<longleftrightarrow> c = CHR ''v'' \<or> c = CHR ''V''"
  "canonicalize c = canonicalize CHR ''a'' \<longleftrightarrow> c = CHR ''a'' \<or> c = CHR ''A''"
  "canonicalize c = canonicalize CHR ''r'' \<longleftrightarrow> c = CHR ''r'' \<or> c = CHR ''R''"
  "canonicalize c = canonicalize CHR ''('' \<longleftrightarrow> c = CHR ''(''"
  "canonicalize c = canonicalize CHR '')'' \<longleftrightarrow> c = CHR '')''"
  "canonicalize c = canonicalize CHR ''-'' \<longleftrightarrow> c = CHR ''-''"
  "canonicalize c = CHR ''V'' \<longleftrightarrow> c = CHR ''v'' \<or> c = CHR ''V''"
  "canonicalize c = CHR ''A'' \<longleftrightarrow> c = CHR ''a'' \<or> c = CHR ''A''"
  "canonicalize c = CHR ''R'' \<longleftrightarrow> c = CHR ''r'' \<or> c = CHR ''R''"
  by (auto simp: canonicalize_def split: if_splits)

lemma cssvar_at_pos: "0 < i \<Longrightarrow> rmatch cssvar_regex str i cs k = None"
  by (simp add: cssvar_regex_def)

lemma cssvar_prefix_needed:
  "rmatch cssvar_regex str 0 cs k = Some y \<Longrightarrow> var_prefix str"
  by (simp add: cssvar_regex_def canonicalize_letter var_prefix_def eval_nat_numeral
      split: if_splits)

lemma cssvar_prefix_given:
  "var_prefix str \<Longrightarrow>
   rmatch cssvar_regex str 0 Map.empty (\<lambda>j cs. Some (0::nat, j, cs)) =
     first_some (tail_k str)
       (rev [1 ..< Suc (length (takeWhile (\<lambda>c. \<not> line_terminator c) (drop 6 str)))])"
proof -
  assume p: "var_prefix str"
  have f: "(\<lambda>n. rmatch (Seq (Lit CHR '')'') Eol) str (6 + n)
               [1 \<mapsto> take (6 + n - 4) (drop 4 str)] (\<lambda>j cs. Some (0::nat, j, cs))) = tail_k str"
    by (rule ext) (auto simp: tail_k_def canonicalize_letter)
  have "rmatch cssvar_regex str 0 Map.empty (\<lambda>j cs. Some (0::nat, j, cs)) =
      rmatch (Many (\<lambda>c. \<not> line_terminator c) 1 True) str 6 Map.empty
        (\<lambda>j cs'. rmatch (Seq (Lit CHR '')'') Eol) str j
               (cs'(1 \<mapsto> take (j - 4) (drop 4 str))) (\<lambda>j cs. Some (0::nat, j, cs)))"
    using p by (simp add: cssvar_regex_def canonicalize_letter var_prefix_def eval_nat_numeral)
  also have "\<dots> = first_some (tail_k str)
       (rev [1 ..< Suc (length (takeWhile (\<lambda>c. \<not> line_terminator c) (drop 6 str)))])"
    unfolding rmatch.simps Let_def f [symmetric] by simp
  finally show ?thesis .
qed

lemma takeWhile_length_ge:
  "n \<le> length (takeWhile P xs) \<longleftrightarrow> n \<le> length xs \<and> list_all P (take n xs)"
proof (induction xs arbitrary: n)
  case Nil
  then show ?case by simp
next
  case (Cons x xs)
  then show ?case by (cases n) auto
qed

lemma var_prefix_iff:
  "var_prefix str \<longleftrightarrow>
     6 \<le> length str \<and> map canonicalize (take 3 str) = ''VAR'' \<and> take 3 (drop 3 str) = ''(--''"
proof (cases "6 \<le> length str")
  case False
  then show ?thesis by (simp add: var_prefix_def)
next
  case True
  then have "\<exists>c0 c1 c2 c3 c4 c5 rest. str = c0 # c1 # c2 # c3 # c4 # c5 # rest"
    by (auto simp: eval_nat_numeral Suc_le_length_iff)
  then obtain c0 c1 c2 c3 c4 c5 rest where "str = c0 # c1 # c2 # c3 # c4 # c5 # rest" by blast
  then show ?thesis by (auto simp: var_prefix_def)
qed

lemma tail_k_only:
  "n \<noteq> length str - 7 \<Longrightarrow> tail_k str n = None"
  by (auto simp: tail_k_def)

lemma cssvar_match:
  "rmatch cssvar_regex str 0 Map.empty (\<lambda>j cs. Some (0::nat, j, cs)) =
     (case var_reference str of None \<Rightarrow> None | Some n \<Rightarrow> Some (0, length str, [1 \<mapsto> n]))"
proof (cases "var_prefix str")
  case False
  then have "rmatch cssvar_regex str 0 Map.empty (\<lambda>j cs. Some (0::nat, j, cs)) \<noteq> Some y" for y
    using cssvar_prefix_needed [of str Map.empty "\<lambda>j cs. Some (0::nat, j, cs)" y] by blast
  then have "rmatch cssvar_regex str 0 Map.empty (\<lambda>j cs. Some (0::nat, j, cs)) = None"
    by (simp only: not_Some_eq [symmetric]) blast
  moreover have "var_reference str = None"
    using False by (auto simp: var_prefix_iff var_reference_def)
  ultimately show ?thesis by simp
next
  case True
  define hi where "hi = length (takeWhile (\<lambda>c. \<not> line_terminator c) (drop 6 str))"
  define n0 where "n0 = length str - 7"
  have len: "6 \<le> length str" using True by (simp add: var_prefix_iff)
  have m: "rmatch cssvar_regex str 0 Map.empty (\<lambda>j cs. Some (0::nat, j, cs)) =
      (if n0 \<in> set (rev [1 ..< Suc hi]) then tail_k str n0 else None)"
    unfolding cssvar_prefix_given [OF True] hi_def [symmetric] n0_def
    by (rule first_some_unique) (rule tail_k_only)
  show ?thesis
  proof (cases "8 \<le> length str \<and> last str = CHR '')''
      \<and> list_all (\<lambda>c. \<not> line_terminator c) (butlast (drop 6 str))")
    case False
    then have v: "var_reference str = None" by (auto simp: var_reference_def)
    have "\<not> (n0 \<in> set (rev [1 ..< Suc hi]) \<and> tail_k str n0 \<noteq> None)"
    proof
      assume a: "n0 \<in> set (rev [1 ..< Suc hi]) \<and> tail_k str n0 \<noteq> None"
      then have n: "1 \<le> n0" "n0 \<le> hi" by auto
      then have l8: "8 \<le> length str" by (simp add: n0_def)
      from a have "str ! (6 + n0) = CHR '')''" "Suc (6 + n0) = length str"
        by (auto simp: tail_k_def split: if_splits)
      moreover have "str \<noteq> []" using l8 by auto
      ultimately have la: "last str = CHR '')''" using l8 by (simp add: last_conv_nth n0_def)
      have "list_all (\<lambda>c. \<not> line_terminator c) (take n0 (drop 6 str))"
        using n(2) by (simp add: hi_def takeWhile_length_ge)
      moreover have "butlast (drop 6 str) = take n0 (drop 6 str)"
        using l8 by (simp add: butlast_conv_take n0_def)
      ultimately show False using False l8 la by simp
    qed
    then have "(if n0 \<in> set (rev [1 ..< Suc hi]) then tail_k str n0 else None) = None"
      by (cases "tail_k str n0") (simp_all del: upt_Suc set_rev)
    then show ?thesis using m v by simp
  next
    case c: True
    then have l8: "8 \<le> length str" by simp
    have v: "var_reference str = Some (butlast (drop 4 str))"
      using c True by (simp add: var_reference_def var_prefix_iff)
    have b6: "butlast (drop 6 str) = take n0 (drop 6 str)"
      using l8 by (simp add: butlast_conv_take n0_def)
    have "n0 \<le> hi" using c l8 unfolding hi_def takeWhile_length_ge b6 [symmetric] by (simp add: n0_def)
    moreover have "1 \<le> n0" using l8 by (simp add: n0_def)
    ultimately have mem: "n0 \<in> set (rev [1 ..< Suc hi])" by (simp del: upt_Suc)
    have e: "6 + n0 = length str - 1" "Suc (6 + n0) = length str" "6 + n0 < length str"
      using l8 unfolding n0_def by linarith+
    have "str \<noteq> []" using l8 by auto
    then have k: "str ! (6 + n0) = CHR '')''" using c by (simp add: last_conv_nth e(1))
    have "length str - 5 = Suc (Suc n0)" using l8 unfolding n0_def by linarith
    then have "butlast (drop 4 str) = take (Suc (Suc n0)) (drop 4 str)"
      by (simp add: butlast_conv_take)
    then have "tail_k str n0 = Some (0, length str, [1 \<mapsto> butlast (drop 4 str)])"
      using k e(2) e(3) by (simp add: tail_k_def)
    then show ?thesis using m v mem by simp
  qed
qed

lemma RegExp_exec_cssvar:
  "RegExp_exec cssvar_regex str =
     (case var_reference str of None \<Rightarrow> None | Some n \<Rightarrow> Some (0, length str, [1 \<mapsto> n]))"
proof -
  have "RegExp_exec cssvar_regex str =
      (if 0 \<in> set [0 ..< Suc (length str)]
       then rmatch cssvar_regex str 0 Map.empty (\<lambda>j cs. Some (0::nat, j, cs)) else None)"
    unfolding RegExp_exec_def by (rule first_some_unique) (simp add: cssvar_at_pos)
  then show ?thesis by (simp add: cssvar_match del: upt_Suc)
qed

lemma var_reference_shape:
  "var_reference (v # a # r # ''(--'' @ name @ '')'') =
     (if canonicalize v = CHR ''V'' \<and> canonicalize a = CHR ''A'' \<and> canonicalize r = CHR ''R''
         \<and> name \<noteq> [] \<and> list_all (\<lambda>c. \<not> line_terminator c) name
      then Some (''--'' @ name) else None)"
  by (cases name) (auto simp: var_reference_def butlast_append)

text \<open>
  Claim C9. For every input string, \<open>checkIfCSSVar\<close> reports a CSS variable exactly when the
  whole string matches the pattern \<^verbatim>\<open>var(--name)\<close>, and then extracts \<^verbatim>\<open>--name\<close>, the text
  between \<^verbatim>\<open>var(\<close> and the closing parenthesis; for any other string it reports false. The
  letters of \<^verbatim>\<open>var\<close> match in either case (the flag \<^verbatim>\<open>i\<close>), and the name is not empty and
  has no line terminator.
\<close>

theorem checkIfCSSVar_pattern:
  "checkIfCSSVar str =
     (case var_reference str of None \<Rightarrow> (False, None) | Some name \<Rightarrow> (True, Some name))
   \<and> checkIfCSSVar (v # a # r # ''(--'' @ name @ '')'') =
     (if canonicalize v = CHR ''V'' \<and> canonicalize a = CHR ''A'' \<and> canonicalize r = CHR ''R''
         \<and> name \<noteq> [] \<and> list_all (\<lambda>c. \<not> line_terminator c) name
      then (True, Some (''--'' @ name)) else (False, None))"
proof -
  have 1: "checkIfCSSVar s =
     (case var_reference s of None \<Rightarrow> (False, None) | Some name \<Rightarrow> (True, Some name))" for s
    by (simp add: checkIfCSSVar_def RegExp_exec_cssvar split: option.splits)
  show ?thesis using 1 [of str] 1 [of "v # a # r # ''(--'' @ name @ '')''"]
    by (simp only: var_reference_shape) simp
qed

theorem checkIfCSSVar_pattern_witness:
  "checkIfCSSVar ''var(--brand)'' = (True, Some ''--brand'')
   \<and> checkIfCSSVar ''VAR(--a)b)'' = (True, Some ''--a)b'')
   \<and> checkIfCSSVar ''var(--)'' = (False, None)
   \<and> checkIfCSSVar ''#336699'' = (False, None)"
  using checkIfCSSVar_pattern [of "''var(--brand)''" "CHR ''v''" "CHR ''a''" "CHR ''r''" "''brand''"]
    checkIfCSSVar_pattern [of "''VAR(--a)b)''" "CHR ''V''" "CHR ''A''" "CHR ''R''" "''a)b''"]
    checkIfCSSVar_pattern [of "''var(--)''" "CHR ''v''" "CHR ''a''" "CHR ''r''" "[]"]
    checkIfCSSVar_pattern [of "''#336699''" "CHR ''v''" "CHR ''a''" "CHR ''r''" "[]"]
  by (simp add: var_reference_def canonicalize_def line_terminator_def)

section \<open>The round trip from RGBA to HSVA and back\<close>

lemma fl_error_pow:
  assumes "\<bar>x\<bar> \<le> 2 powi k" "- 1021 \<le> k"
  shows "\<bar>fl x - x\<bar> \<le> 2 powi (k - 54)"
proof -
  consider "x = 0" | "\<bar>x\<bar> = 2 powi k" | "0 < \<bar>x\<bar>" "\<bar>x\<bar> < 2 powi k" using assms(1) by linarith
  then show ?thesis
  proof cases
    case 1 then show ?thesis by (simp add: fl_def)
  next
    case 2
    then have "x = of_int 1 * 2 powi k \<or> x = of_int (- 1) * 2 powi k" by (auto simp: abs_if split: if_splits)
    moreover have "fl (of_int 1 * 2 powi k) = of_int 1 * 2 powi k" using assms(2) by (intro fl_grid53) simp_all
    moreover have "fl (of_int (- 1) * 2 powi k) = of_int (- 1) * 2 powi k" using assms(2) by (intro fl_grid53) simp_all
    ultimately show ?thesis by auto
  next
    case 3
    have "ulp_exp \<bar>x\<bar> \<le> k - 53" using 3 assms(2) by (intro ulp_exp_less) simp_all
    then have "(2::rat) powi ulp_exp x \<le> 2 powi (k - 53)" by (simp only: powi_le_iff ulp_exp_abs)
    moreover have "(2::rat) powi (k - 53) = 2 * 2 powi (k - 54)"
      using powi_step [of "k - 54"] by (simp add: algebra_simps)
    ultimately show ?thesis using fl_error [of x] by simp
  qed
qed





lemma fl_error_256: "\<bar>x\<bar> \<le> 256 \<Longrightarrow> \<bar>fl x - x\<bar> \<le> 256 * eps"
proof -
  have "(2::rat) powi (8 - 54) = 256 * eps" by (simp add: power_int_def eps_def field_simps)
  moreover have "(2::rat) powi 8 = 256" by (simp add: power_int_def)
  ultimately show "\<bar>x\<bar> \<le> 256 \<Longrightarrow> \<bar>fl x - x\<bar> \<le> 256 * eps"
    using fl_error_pow [of x 8] by simp
qed

lemma fl_max: "max (fl x) (fl y) = fl (max x y)"
  using fl_mono [of x y] fl_mono [of y x] by (auto simp: max_def)

lemma fl_min: "min (fl x) (fl y) = fl (min x y)"
  using fl_mono [of x y] fl_mono [of y x] by (auto simp: min_def)


lemma RGBAtoHSVA_parts:
  "RGBAtoHSVA c =
     \<lparr>hsva_h = wrap_degrees (rgb_hue (fl (rgba_r c / 255)) (fl (rgba_g c / 255)) (fl (rgba_b c / 255))),
      hsva_s = Math_round (fl (rgb_saturation (fl (rgba_r c / 255)) (fl (rgba_g c / 255)) (fl (rgba_b c / 255)) * 100)),
      hsva_v = Math_round (fl (max (fl (rgba_r c / 255)) (max (fl (rgba_g c / 255)) (fl (rgba_b c / 255))) * 100)),
      hsva_a = rgba_a c\<rparr>"
  by (simp add: RGBAtoHSVA_eq_spec RGBAtoHSVA_spec_def Let_def wrap_degrees_def rgb_hue_def
      rgb_saturation_def)

lemma fl_ratio_unit:
  assumes "0 < d" "- d \<le> n" "n \<le> d"
  shows "- 1 \<le> fl (n / d)" "fl (n / d) \<le> 1"
proof -
  have "- 1 \<le> n / d" "n / d \<le> 1" using assms by (simp_all add: field_simps)
  then have "fl (- 1) \<le> fl (n / d)" "fl (n / d) \<le> fl 1" by (auto intro!: fl_mono)
  then show "- 1 \<le> fl (n / d)" "fl (n / d) \<le> 1" by (simp_all add: fl_uminus fl_1)
qed

lemma fl_diff_chroma:
  assumes "xmin \<le> p" "p \<le> xmax" "xmin \<le> q" "q \<le> xmax"
  shows "- fl (xmax - xmin) \<le> fl (p - q)" "fl (p - q) \<le> fl (xmax - xmin)"
proof -
  have "fl (xmin - xmax) \<le> fl (p - q)" "fl (p - q) \<le> fl (xmax - xmin)"
    using assms by (auto intro!: fl_mono)
  then show "- fl (xmax - xmin) \<le> fl (p - q)" "fl (p - q) \<le> fl (xmax - xmin)"
    using fl_sub_swap [of xmax xmin] by simp_all
qed

lemma rgb_hue_range:
  "- 1 \<le> rgb_hue red green blue \<and> rgb_hue red green blue \<le> 5"
proof -
  define xmax where "xmax = max red (max green blue)"
  define xmin where "xmin = min red (min green blue)"
  define chroma where "chroma = fl (xmax - xmin)"
  have b: "xmin \<le> red" "red \<le> xmax" "xmin \<le> green" "green \<le> xmax" "xmin \<le> blue" "blue \<le> xmax"
    by (simp_all add: xmin_def xmax_def)
  have c0: "0 \<le> chroma" unfolding chroma_def using b by (intro fl_nonneg) simp
  show ?thesis
  proof (cases "chroma = 0")
    case True
    then show ?thesis by (simp add: rgb_hue_def Let_def xmax_def xmin_def chroma_def)
  next
    case False
    then have c: "0 < chroma" using c0 by simp
    define hr where "hr = fl (fl (green - blue) / chroma)"
    define hg where "hg = fl (2 + fl (fl (blue - red) / chroma))"
    define hb where "hb = fl (4 + fl (fl (red - green) / chroma))"
    have cf: "(chroma = 0) = False" using False by simp
    have e: "rgb_hue red green blue = (if xmax = red then hr else if xmax = green then hg else hb)"
      unfolding rgb_hue_def Let_def xmax_def [symmetric] xmin_def [symmetric]
          chroma_def [symmetric] hr_def hg_def hb_def
      by (simp only: cf if_False)
    have r: "- 1 \<le> hr" "hr \<le> 1"
      using fl_ratio_unit [OF c, of "fl (green - blue)"] fl_diff_chroma [OF b(3) b(4) b(5) b(6)]
      by (simp_all add: chroma_def hr_def)
    have g: "- 1 \<le> fl (fl (blue - red) / chroma)" "fl (fl (blue - red) / chroma) \<le> 1"
      using fl_ratio_unit [OF c, of "fl (blue - red)"] fl_diff_chroma [OF b(5) b(6) b(1) b(2)]
      by (simp_all add: chroma_def)
    have bl: "- 1 \<le> fl (fl (red - green) / chroma)" "fl (fl (red - green) / chroma) \<le> 1"
      using fl_ratio_unit [OF c, of "fl (red - green)"] fl_diff_chroma [OF b(1) b(2) b(3) b(4)]
      by (simp_all add: chroma_def)
    have "fl 1 \<le> hg" "hg \<le> fl 3" unfolding hg_def using g by (auto intro!: fl_mono)
    then have g2: "1 \<le> hg" "hg \<le> 3" by (simp_all add: fl_numeral_facts)
    have "fl 3 \<le> hb" "hb \<le> fl 5" unfolding hb_def using bl by (auto intro!: fl_mono)
    then have b2: "3 \<le> hb" "hb \<le> 5" by (simp_all add: fl_numeral_facts)
    show ?thesis unfolding e using r g2 b2 by auto
  qed
qed

lemma wrap_degrees_range:
  assumes "- 1 \<le> hue" "hue \<le> 5"
  shows "\<exists>h. wrap_degrees hue = of_int h \<and> 0 \<le> h \<and> h \<le> 359"
proof -
  have "fl (- 60) \<le> fl (hue * 60)" "fl (hue * 60) \<le> fl 300" using assms by (auto intro!: fl_mono)
  then have b: "- 60 \<le> fl (hue * 60)" "fl (hue * 60) \<le> 300" by (simp_all add: fl_numeral_facts)
  define d where "d = \<lfloor>fl (hue * 60)\<rfloor>"
  have d: "- 60 \<le> d" "d \<le> 300" using b by (simp_all add: d_def le_floor_iff floor_le_iff)
  show ?thesis
  proof (cases "d < 0")
    case True
    have "fl (of_int (d + 360)) = of_int (d + 360)" using d by (intro fl_int) simp
    then have "wrap_degrees hue = of_int (d + 360)"
      using True by (simp add: wrap_degrees_def Math_floor_def d_def [symmetric])
    then show ?thesis using d True by (intro exI [of _ "d + 360"]) simp
  next
    case False
    then have "wrap_degrees hue = of_int d"
      by (simp add: wrap_degrees_def Math_floor_def d_def [symmetric])
    then show ?thesis using d False by (intro exI [of _ d]) simp
  qed
qed

lemma percent_range:
  assumes "0 \<le> y" "y \<le> 1"
  shows "\<exists>k. Math_round (fl (y * 100)) = of_int k \<and> 0 \<le> k \<and> k \<le> 100"
proof -
  have "fl 0 \<le> fl (y * 100)" "fl (y * 100) \<le> fl (of_int 100)" using assms by (auto intro!: fl_mono)
  moreover have "fl (of_int 100) = of_int 100" by (intro fl_int) simp
  ultimately have "0 \<le> fl (y * 100)" "fl (y * 100) \<le> 100" by (simp_all add: fl_0)
  then have "0 \<le> \<lfloor>fl (y * 100) + 1 / 2\<rfloor>" "\<lfloor>fl (y * 100) + 1 / 2\<rfloor> \<le> 100"
    by (simp_all add: le_floor_iff floor_le_iff)
  then show ?thesis unfolding Math_round_def by blast
qed

lemma norm_unit: "0 \<le> r \<Longrightarrow> r \<le> 255 \<Longrightarrow> 0 \<le> fl (r / 255) \<and> fl (r / 255) \<le> 1"
  using fl_unit [of "r / 255"] by simp

lemma rgb_saturation_unit:
  assumes "0 \<le> red" "0 \<le> green" "0 \<le> blue" "fl red = red" "fl green = green" "fl blue = blue"
  shows "0 \<le> rgb_saturation red green blue \<and> rgb_saturation red green blue \<le> 1"
proof -
  define xmax where "xmax = max red (max green blue)"
  define xmin where "xmin = min red (min green blue)"
  have x: "0 \<le> xmin" "xmin \<le> xmax" using assms by (simp_all add: xmin_def xmax_def)
  have xd: "fl xmax = xmax" using assms by (simp add: xmax_def fl_max [symmetric])
  show ?thesis
  proof (cases "xmax = 0")
    case True
    then show ?thesis by (simp add: rgb_saturation_def Let_def xmax_def)
  next
    case False
    then have p: "0 < xmax" using x by simp
    have "fl 0 \<le> fl (xmax - xmin)" "fl (xmax - xmin) \<le> fl xmax" using x by (auto intro!: fl_mono)
    then have c: "0 \<le> fl (xmax - xmin)" "fl (xmax - xmin) \<le> xmax" by (simp_all add: fl_0 xd)
    then have "0 \<le> fl (xmax - xmin) / xmax" "fl (xmax - xmin) / xmax \<le> 1" using p by simp_all
    then show ?thesis using False fl_unit [of "fl (xmax - xmin) / xmax"]
      by (simp add: rgb_saturation_def Let_def xmax_def [symmetric] xmin_def [symmetric])
  qed
qed

lemma RGBAtoHSVA_range:
  assumes "0 \<le> rgba_r c" "rgba_r c \<le> 255" "0 \<le> rgba_g c" "rgba_g c \<le> 255"
    "0 \<le> rgba_b c" "rgba_b c \<le> 255"
  shows "\<exists>h s v. RGBAtoHSVA c = \<lparr>hsva_h = of_int h, hsva_s = of_int s, hsva_v = of_int v, hsva_a = rgba_a c\<rparr>
      \<and> 0 \<le> h \<and> h \<le> 359 \<and> 0 \<le> s \<and> s \<le> 100 \<and> 0 \<le> v \<and> v \<le> 100"
proof -
  define red where "red = fl (rgba_r c / 255)"
  define green where "green = fl (rgba_g c / 255)"
  define blue where "blue = fl (rgba_b c / 255)"
  have u: "0 \<le> red" "red \<le> 1" "0 \<le> green" "green \<le> 1" "0 \<le> blue" "blue \<le> 1"
    using assms norm_unit [of "rgba_r c"] norm_unit [of "rgba_g c"] norm_unit [of "rgba_b c"]
    by (simp_all add: red_def green_def blue_def)
  have dbl: "fl red = red" "fl green = green" "fl blue = blue"
    by (simp_all add: red_def green_def blue_def fl_idem)
  obtain h where h: "wrap_degrees (rgb_hue red green blue) = of_int h" "0 \<le> h" "h \<le> 359"
    using wrap_degrees_range rgb_hue_range [of red green blue] by blast
  obtain s where s: "Math_round (fl (rgb_saturation red green blue * 100)) = of_int s" "0 \<le> s" "s \<le> 100"
    using percent_range rgb_saturation_unit [OF u(1) u(3) u(5) dbl] by blast
  have "0 \<le> max red (max green blue)" "max red (max green blue) \<le> 1" using u by simp_all
  then obtain v where v: "Math_round (fl (max red (max green blue) * 100)) = of_int v" "0 \<le> v" "v \<le> 100"
    using percent_range by blast
  have "RGBAtoHSVA c = \<lparr>hsva_h = of_int h, hsva_s = of_int s, hsva_v = of_int v, hsva_a = rgba_a c\<rparr>"
    by (simp add: RGBAtoHSVA_parts red_def [symmetric] green_def [symmetric] blue_def [symmetric]
        h(1) s(1) v(1))
  then show ?thesis using h s v by blast
qed

lemma roundtrip_defined:
  assumes "0 \<le> r" "r \<le> 255" "0 \<le> g" "g \<le> 255" "0 \<le> b" "b \<le> 255"
  shows "\<exists>r' g' b'. HSVAtoRGBA (RGBAtoHSVA \<lparr>rgba_r = of_int r, rgba_g = of_int g, rgba_b = of_int b, rgba_a = a\<rparr>)
           = Some \<lparr>rgba_r = of_int r', rgba_g = of_int g', rgba_b = of_int b', rgba_a = a\<rparr>
         \<and> 0 \<le> r' \<and> r' \<le> 255 \<and> 0 \<le> g' \<and> g' \<le> 255 \<and> 0 \<le> b' \<and> b' \<le> 255"
proof -
  define c where "c = \<lparr>rgba_r = of_int r, rgba_g = of_int g, rgba_b = of_int b, rgba_a = a\<rparr>"
  have "0 \<le> rgba_r c" "rgba_r c \<le> 255" "0 \<le> rgba_g c" "rgba_g c \<le> 255"
    "0 \<le> rgba_b c" "rgba_b c \<le> 255" using assms by (simp_all add: c_def)
  from RGBAtoHSVA_range [OF this] obtain h s v where
    hsv: "RGBAtoHSVA c = \<lparr>hsva_h = of_int h, hsva_s = of_int s, hsva_v = of_int v, hsva_a = a\<rparr>"
      "0 \<le> h" "h \<le> 359" "0 \<le> s" "s \<le> 100" "0 \<le> v" "v \<le> 100"
    by (auto simp: c_def)
  have "(0::rat) \<le> of_int h" "(of_int h :: rat) \<le> 360" "(0::rat) \<le> of_int s" "(of_int s :: rat) \<le> 100"
    "(0::rat) \<le> of_int v" "(of_int v :: rat) \<le> 100" using hsv by simp_all
  from HSVAtoRGBA_channels [OF this, of a] show ?thesis unfolding c_def [symmetric] hsv(1) by blast
qed



































text \<open>
  The difference reaches 5: the round trip of \<open>{0, 89, 254, 1}\<close> is \<open>{0, 94, 255, 1}\<close>.
\<close>

lemma roundtrip_difference_5:
  "HSVAtoRGBA (RGBAtoHSVA \<lparr>rgba_r = 0, rgba_g = 89, rgba_b = 254, rgba_a = 1\<rparr>)
     = Some \<lparr>rgba_r = 0, rgba_g = 94, rgba_b = 255, rgba_a = 1\<rparr>"
  by code_simp



section \<open>Parsing a colour string: results\<close>





















lemma rgba_of_style_rgb_form:
  "rgba_of_style ''rgb(255, 0, 0)'' =
     Inr \<lparr>object_r = Some (Num 255), object_g = Some (Num 0), object_b = Some (Num 0),
          object_a = Some (Num 0)\<rparr>"
  by code_simp



end
